theory Spec2Isabelle
  imports Complex_Main "HOL-Library.Word"
begin

section \<open>Python text primitives\<close>

text \<open>
  A Python \<open>str\<close> is modelled as an Isabelle \<open>string\<close>. An Isabelle \<open>char\<close> has 256
  values; it is read here as the Unicode code point of the same number, so the model
  covers the texts whose code points lie in 0..255 (ASCII and the Latin-1 supplement).
  The character classes below are Python's (\<open>str.isalnum\<close>, \<open>str.isspace\<close>,
  \<open>str.lower\<close>) on that range, where \<open>str.lower\<close> maps every character to one
  character of the range. Texts with code points from 256 on are outside the model: there
  \<open>str.lower\<close> can give two characters for one, or leave an upper-case character as
  it is, and nothing below speaks of them.
\<close>

definition cp :: "char \<Rightarrow> nat" where
  "cp c = of_char c"


definition isalnum :: "char \<Rightarrow> bool" where
  "isalnum c =
     (let n = cp c in
        (48 \<le> n \<and> n \<le> 57) \<or> (65 \<le> n \<and> n \<le> 90) \<or> (97 \<le> n \<and> n \<le> 122)
        \<or> n = 170 \<or> n = 178 \<or> n = 179 \<or> n = 181 \<or> n = 185 \<or> n = 186
        \<or> (188 \<le> n \<and> n \<le> 190) \<or> (192 \<le> n \<and> n \<le> 214)
        \<or> (216 \<le> n \<and> n \<le> 246) \<or> 248 \<le> n)"

definition isspace :: "char \<Rightarrow> bool" where
  "isspace c =
     (let n = cp c in
        (9 \<le> n \<and> n \<le> 13) \<or> (28 \<le> n \<and> n \<le> 32) \<or> n = 133 \<or> n = 160)"

definition isupper :: "char \<Rightarrow> bool" where
  "isupper c =
     (let n = cp c in
        (65 \<le> n \<and> n \<le> 90) \<or> (192 \<le> n \<and> n \<le> 214) \<or> (216 \<le> n \<and> n \<le> 222))"

definition lower_char :: "char \<Rightarrow> char" where
  "lower_char c = (if isupper c then char_of (cp c + 32) else c)"

definition lower :: "string \<Rightarrow> string" where
  "lower s = map lower_char s"

text \<open>\<open>s.startswith(p)\<close> and the substring test \<open>k in s\<close>.\<close>

fun startswith :: "string \<Rightarrow> string \<Rightarrow> bool" where
  "startswith s [] = True"
| "startswith [] (p # ps) = False"
| "startswith (c # cs) (p # ps) = (c = p \<and> startswith cs ps)"

fun str_in :: "string \<Rightarrow> string \<Rightarrow> bool" where
  "str_in k [] = (k = [])"
| "str_in k (c # cs) = (startswith (c # cs) k \<or> str_in k cs)"

text \<open>\<open>s.split(d)[0]\<close> and \<open>s.split(d)[-1]\<close> for a one-character delimiter \<open>d\<close>.\<close>

definition split_first :: "char \<Rightarrow> string \<Rightarrow> string" where
  "split_first d s = takeWhile (\<lambda>c. c \<noteq> d) s"

definition split_last :: "char \<Rightarrow> string \<Rightarrow> string" where
  "split_last d s = rev (takeWhile (\<lambda>c. c \<noteq> d) (rev s))"

definition strip :: "string \<Rightarrow> string" where
  "strip s = rev (dropWhile isspace (rev (dropWhile isspace s)))"

text \<open>\<open>s.replace(a, b)\<close> for one-character \<open>a\<close>, \<open>b\<close>, and \<open>s.replace(a, '')\<close>.\<close>

definition replace_char :: "char \<Rightarrow> char \<Rightarrow> string \<Rightarrow> string" where
  "replace_char a b s = map (\<lambda>c. if c = a then b else c) s"

definition remove_char :: "char \<Rightarrow> string \<Rightarrow> string" where
  "remove_char a s = filter (\<lambda>c. c \<noteq> a) s"

text \<open>\<open>any(k in s for k in ks)\<close>.\<close>

definition any_in :: "string list \<Rightarrow> string \<Rightarrow> bool" where
  "any_in ks s = list_ex (\<lambda>k. str_in k s) ks"


section \<open>The Email record\<close>

text \<open>
  \<open>models/email_models.py\<close>, class \<open>Email\<close>: the fields the ingestion pipeline reads or
  writes. A \<open>datetime\<close> is carried by its \<open>str()\<close> rendering, the only way the pipeline
  reads it.
\<close>

record email =
  eid :: string
  account_email :: string
  subject :: string
  sender :: string
  date :: string
  body :: string
  category :: string
  main_category :: string
  sub_category :: string
  is_read :: bool
  email_hash :: "string option"
  message_id :: "string option"


section \<open>The hierarchical categorizer (services/email\_service.py)\<close>

definition extract_domain :: "string \<Rightarrow> string" where
  "extract_domain s =
     (if CHR ''@'' \<in> set s then strip (split_first CHR ''>'' (split_last CHR ''@'' s)) else s)"

definition folder_friendly :: "string \<Rightarrow> string" where
  "folder_friendly name_part =
     filter (\<lambda>c. isalnum c \<or> c = CHR ''_'')
       (replace_char CHR '' '' CHR ''_''
         (replace_char CHR ''.'' CHR ''_''
           (replace_char CHR ''-'' CHR ''_'' name_part)))"

definition extract_sender_name :: "string \<Rightarrow> string" where
  "extract_sender_name s =
     (let name_part0 =
            (if CHR ''<'' \<in> set s \<and> CHR ''>'' \<in> set s then strip (split_first CHR ''<'' s)
             else if CHR ''@'' \<in> set s then split_first CHR ''@'' s
             else s);
          name_part1 = strip (remove_char (CHR 0x27) (remove_char (CHR 0x22) name_part0));
          name_part =
            (if name_part1 = [] \<or> CHR ''@'' \<in> set name_part1
             then (let domain = extract_domain s in
                     if CHR ''.'' \<in> set domain then split_first CHR ''.'' domain else domain)
             else name_part1);
          folder_name = folder_friendly name_part
      in lower (if folder_name = [] then ''unknown_sender'' else folder_name))"

definition known_banks :: "(string \<times> string) list" where
  "known_banks =
     [(''sbi'', ''state_bank_of_india''), (''hdfc'', ''hdfc_bank''), (''icici'', ''icici_bank''),
      (''axis'', ''axis_bank''), (''kotak'', ''kotak_bank''), (''yes'', ''yes_bank''),
      (''pnb'', ''punjab_national_bank''), (''union'', ''union_bank''),
      (''canara'', ''canara_bank''), (''bankofbaroda'', ''bank_of_baroda''),
      (''idbi'', ''idbi_bank'')]"

definition detect_bank_name_dynamic :: "string \<Rightarrow> string \<Rightarrow> string \<Rightarrow> string \<Rightarrow> string" where
  "detect_bank_name_dynamic subj sndr domain sender_name =
     (case List.find (\<lambda>(k, n). str_in k subj \<or> str_in k sndr \<or> str_in k domain) known_banks of
        Some (k, n) \<Rightarrow> n
      | None \<Rightarrow> sender_name)"

definition detect_company_name_dynamic :: "string \<Rightarrow> string \<Rightarrow> string \<Rightarrow> string \<Rightarrow> string" where
  "detect_company_name_dynamic subj sndr domain sender_name =
     (if CHR ''.'' \<in> set domain then
        (let company_part = split_first CHR ''.'' domain;
             company_name =
               filter (\<lambda>c. isalnum c \<or> c = CHR ''_'')
                 (replace_char CHR ''.'' CHR ''_'' (replace_char CHR ''-'' CHR ''_'' company_part))
         in if company_name \<noteq> [] \<and> company_name \<noteq> ''www'' then lower company_name
            else sender_name)
      else sender_name)"

definition is_bank_email :: "string \<Rightarrow> string \<Rightarrow> string \<Rightarrow> bool" where
  "is_bank_email subj sndr domain =
     (list_ex (\<lambda>k. str_in k subj \<or> str_in k sndr)
        [''bank'', ''sbi'', ''hdfc'', ''icici'', ''axis'', ''kotak'', ''yes'', ''pnb'', ''union'']
      \<or> list_ex (\<lambda>d. str_in d domain)
        [''sbi.co.in'', ''hdfcbank.com'', ''icicibank.com'', ''axisbank.com'', ''kotak.com'',
         ''yesbank.in'', ''pnb.co.in''])"

definition is_company_email :: "string \<Rightarrow> string \<Rightarrow> string \<Rightarrow> bool" where
  "is_company_email subj sndr domain =
     any_in [''invoice'', ''receipt'', ''statement'', ''account'', ''business'', ''corporate''] subj"

definition is_support_email :: "string \<Rightarrow> string \<Rightarrow> bool" where
  "is_support_email subj sndr =
     any_in [''support'', ''help'', ''issue'', ''problem'', ''ticket'', ''assistance''] subj"

definition detect_support_type :: "string \<Rightarrow> string \<Rightarrow> string" where
  "detect_support_type subj bdy =
     (if any_in [''technical'', ''tech'', ''software'', ''app''] subj then ''technical''
      else if any_in [''billing'', ''payment'', ''invoice''] subj then ''billing''
      else if any_in [''general'', ''inquiry'', ''question''] subj then ''general''
      else ''general'')"

definition is_newsletter_email :: "string \<Rightarrow> string \<Rightarrow> bool" where
  "is_newsletter_email subj sndr =
     any_in [''newsletter'', ''news'', ''update'', ''digest'', ''weekly'', ''monthly''] subj"

definition detect_newsletter_type :: "string \<Rightarrow> string \<Rightarrow> string" where
  "detect_newsletter_type subj bdy =
     (if any_in [''tech'', ''technology'', ''software''] subj then ''tech_news''
      else if any_in [''business'', ''finance'', ''market''] subj then ''business_news''
      else if any_in [''health'', ''medical'', ''fitness''] subj then ''health_news''
      else ''general_news'')"

definition is_billing_email :: "string \<Rightarrow> string \<Rightarrow> bool" where
  "is_billing_email subj sndr =
     any_in [''invoice'', ''payment'', ''bill'', ''receipt'', ''statement'', ''due''] subj"

definition detect_billing_type :: "string \<Rightarrow> string \<Rightarrow> string" where
  "detect_billing_type subj bdy =
     (if str_in ''invoice'' subj then ''invoice''
      else if str_in ''payment'' subj then ''payment''
      else if str_in ''receipt'' subj then ''receipt''
      else ''billing'')"

definition is_order_email :: "string \<Rightarrow> string \<Rightarrow> bool" where
  "is_order_email subj sndr =
     any_in [''order'', ''purchase'', ''buy'', ''shipping'', ''delivery'', ''tracking''] subj"

definition detect_order_type :: "string \<Rightarrow> string \<Rightarrow> string" where
  "detect_order_type subj bdy =
     (if str_in ''shipping'' subj \<or> str_in ''delivery'' subj then ''shipping''
      else if str_in ''tracking'' subj then ''tracking''
      else if str_in ''order'' subj then ''order_confirmation''
      else ''order'')"

definition is_social_email :: "string \<Rightarrow> string \<Rightarrow> string \<Rightarrow> bool" where
  "is_social_email subj sndr domain =
     (list_ex (\<lambda>d. str_in d domain)
        [''facebook.com'', ''twitter.com'', ''linkedin.com'', ''instagram.com'', ''youtube.com'']
      \<or> list_ex (\<lambda>k. str_in k subj \<or> str_in k sndr)
        [''facebook'', ''twitter'', ''linkedin'', ''instagram'', ''youtube''])"

definition detect_social_platform :: "string \<Rightarrow> string \<Rightarrow> string \<Rightarrow> string" where
  "detect_social_platform subj sndr domain =
     (if str_in ''facebook'' subj \<or> str_in ''facebook'' sndr \<or> str_in ''facebook.com'' domain
        then ''facebook''
      else if str_in ''twitter'' subj \<or> str_in ''twitter'' sndr \<or> str_in ''twitter.com'' domain
        then ''twitter''
      else if str_in ''linkedin'' subj \<or> str_in ''linkedin'' sndr \<or> str_in ''linkedin.com'' domain
        then ''linkedin''
      else if str_in ''instagram'' subj \<or> str_in ''instagram'' sndr \<or> str_in ''instagram.com'' domain
        then ''instagram''
      else if str_in ''youtube'' subj \<or> str_in ''youtube'' sndr \<or> str_in ''youtube.com'' domain
        then ''youtube''
      else ''other_social'')"

definition is_security_email :: "string \<Rightarrow> string \<Rightarrow> bool" where
  "is_security_email subj sndr =
     any_in [''security'', ''password'', ''login'', ''verification'', ''otp'', ''2fa''] subj"

definition detect_security_type :: "string \<Rightarrow> string \<Rightarrow> string" where
  "detect_security_type subj bdy =
     (if str_in ''otp'' subj \<or> str_in ''verification'' subj then ''otp''
      else if str_in ''password'' subj then ''password''
      else if str_in ''login'' subj then ''login''
      else ''security'')"

definition is_meeting_email :: "string \<Rightarrow> string \<Rightarrow> bool" where
  "is_meeting_email subj sndr =
     any_in [''meeting'', ''appointment'', ''schedule'', ''calendar'', ''call''] subj"

definition detect_meeting_type :: "string \<Rightarrow> string \<Rightarrow> string" where
  "detect_meeting_type subj bdy =
     (if str_in ''appointment'' subj then ''appointment''
      else if str_in ''call'' subj then ''call''
      else ''meeting'')"

definition is_career_email :: "string \<Rightarrow> string \<Rightarrow> bool" where
  "is_career_email subj sndr =
     any_in [''job'', ''career'', ''application'', ''resume'', ''interview'', ''position''] subj"

definition detect_career_type :: "string \<Rightarrow> string \<Rightarrow> string" where
  "detect_career_type subj bdy =
     (if str_in ''interview'' subj then ''interview''
      else if str_in ''application'' subj then ''application''
      else ''job'')"

definition is_notification_email :: "string \<Rightarrow> string \<Rightarrow> bool" where
  "is_notification_email subj sndr =
     any_in [''notification'', ''alert'', ''reminder'', ''update''] subj"

definition detect_notification_type :: "string \<Rightarrow> string \<Rightarrow> string" where
  "detect_notification_type subj bdy =
     (if str_in ''failed'' subj \<or> str_in ''error'' subj then ''failure''
      else if str_in ''success'' subj \<or> str_in ''completed'' subj then ''success''
      else ''general'')"

text \<open>
  \<open>_enhanced_categorize_email\<close>: the ordered \<open>if\<close>/\<open>elif\<close> chain, first match wins.
\<close>

definition enhanced_categorize_email :: "'a email_scheme \<Rightarrow> string \<times> string" where
  "enhanced_categorize_email e =
     (let subject_lower = lower (subject e);
          sender_lower = lower (sender e);
          body_lower = lower (body e);
          domain = extract_domain sender_lower;
          sender_name = extract_sender_name (sender e)
      in if is_bank_email subject_lower sender_lower domain
           then (''bank'', detect_bank_name_dynamic subject_lower sender_lower domain sender_name)
         else if is_company_email subject_lower sender_lower domain
           then (''company'',
                 detect_company_name_dynamic subject_lower sender_lower domain sender_name)
         else if is_support_email subject_lower sender_lower
           then (''support'', detect_support_type subject_lower body_lower)
         else if is_newsletter_email subject_lower sender_lower
           then (''newsletter'', detect_newsletter_type subject_lower body_lower)
         else if is_billing_email subject_lower sender_lower
           then (''billing'', detect_billing_type subject_lower body_lower)
         else if is_order_email subject_lower sender_lower
           then (''order'', detect_order_type subject_lower body_lower)
         else if is_social_email subject_lower sender_lower domain
           then (''social'', detect_social_platform subject_lower sender_lower domain)
         else if is_security_email subject_lower sender_lower
           then (''security'', detect_security_type subject_lower body_lower)
         else if is_meeting_email subject_lower sender_lower
           then (''meeting'', detect_meeting_type subject_lower body_lower)
         else if is_career_email subject_lower sender_lower
           then (''career'', detect_career_type subject_lower body_lower)
         else if is_notification_email subject_lower sender_lower
           then (''notification'', detect_notification_type subject_lower body_lower)
         else (''general'', sender_name))"



definition mk_email :: "string \<Rightarrow> string \<Rightarrow> string \<Rightarrow> email" where
  "mk_email subj sndr bdy =
     \<lparr>eid = ''1'', account_email = ''me@example.com'', subject = subj, sender = sndr,
      date = ''2024-01-01 10:00:00'', body = bdy, category = ''general'',
      main_category = ''general'', sub_category = ''general'', is_read = False,
      email_hash = None, message_id = None\<rparr>"


section \<open>The flat weighted categorizer (services/categorization\_service.py)\<close>

text \<open>
  One entry of \<open>self.category_rules\<close>: a Python dict with the keys \<open>keywords\<close> (field \<open>rule_keywords\<close>),
  \<open>sender_patterns\<close>, \<open>priority\<close> and \<open>weight\<close>. The scoring function also reads a
  key \<open>category\<close> with \<open>rules.get('category', '')\<close>; no rule of the default set has
  it, so the field is optional. Scores are Python floats; they are modelled as rationals
  (every score the default rule set can reach through the code is a multiple of 0.5 and
  exact in both).
\<close>

record category_rule =
  category_key :: "string option"
  rule_keywords :: "string list"
  sender_patterns :: "string list"
  priority :: int
  weight :: rat

definition category_rules :: "(string \<times> category_rule) list" where
  "category_rules =
     [(''billing'',
       \<lparr>category_key = None,
        rule_keywords = [''invoice'', ''payment'', ''bill'', ''billing'', ''receipt'', ''charge'',
                    ''subscription''],
        sender_patterns = [''billing@'', ''invoice@'', ''payments@'', ''noreply@paypal'',
                           ''stripe''],
        priority = 1, weight = 3 / 2\<rparr>),
      (''support'',
       \<lparr>category_key = None,
        rule_keywords = [''support'', ''help'', ''assistance'', ''ticket'', ''issue'', ''problem'',
                    ''question''],
        sender_patterns = [''support@'', ''help@'', ''customer@'', ''service@''],
        priority = 2, weight = 6 / 5\<rparr>),
      (''marketing'',
       \<lparr>category_key = None,
        rule_keywords = [''newsletter'', ''promotion'', ''offer'', ''sale'', ''discount'',
                    ''marketing'', ''unsubscribe''],
        sender_patterns = [''marketing@'', ''newsletter@'', ''promo@'', ''offers@''],
        priority = 3, weight = 1\<rparr>),
      (''notification'',
       \<lparr>category_key = None,
        rule_keywords = [''notification'', ''alert'', ''reminder'', ''update'', ''status'',
                    ''confirm''],
        sender_patterns = [''no-reply@'', ''noreply@'', ''notification@'', ''alerts@''],
        priority = 4, weight = 13 / 10\<rparr>),
      (''security'',
       \<lparr>category_key = None,
        rule_keywords = [''security'', ''password'', ''login'', ''verification'',
                    ''authentication'', ''suspicious''],
        sender_patterns = [''security@'', ''auth@'', ''verification@''],
        priority = 0, weight = 2\<rparr>)]"

definition default_category :: string where
  "default_category = ''general''"

text \<open>
  \<open>_compile_patterns\<close>: per category, the compiled keyword patterns
  \<open>\bkeyword\b\<close> and the compiled sender patterns, both case-insensitive. A compiled
  pattern is represented by its source text; \<open>keyword_search\<close> and \<open>sender_search\<close>
  are its \<open>search\<close>.
\<close>

definition compile_patterns ::
    "(string \<times> category_rule) list \<Rightarrow> (string \<times> string list \<times> string list) list" where
  "compile_patterns rs = map (\<lambda>(c, r). (c, rule_keywords r, sender_patterns r)) rs"

definition word_char :: "char option \<Rightarrow> bool" where
  "word_char x = (case x of None \<Rightarrow> False | Some c \<Rightarrow> isalnum c \<or> c = CHR ''_'')"

definition first_char :: "string \<Rightarrow> char option" where
  "first_char t = (case t of [] \<Rightarrow> None | c # _ \<Rightarrow> Some c)"

text \<open>
  \<open>\b\<close> holds between a word character and a non-word character (or an end of the
  text). \<open>keyword_here prev t k\<close>: the pattern matches at the start of \<open>t\<close>, where
  \<open>prev\<close> is the character before \<open>t\<close>.
\<close>

definition keyword_here :: "char option \<Rightarrow> string \<Rightarrow> string \<Rightarrow> bool" where
  "keyword_here prev t k =
     (word_char prev \<noteq> word_char (first_char t)
      \<and> startswith t k
      \<and> word_char (if k = [] then prev else Some (last k))
          \<noteq> word_char (first_char (drop (length k) t)))"

fun keyword_scan :: "char option \<Rightarrow> string \<Rightarrow> string \<Rightarrow> bool" where
  "keyword_scan prev [] k = keyword_here prev [] k"
| "keyword_scan prev (c # cs) k = (keyword_here prev (c # cs) k \<or> keyword_scan (Some c) cs k)"

definition keyword_search :: "string \<Rightarrow> string \<Rightarrow> bool" where
  "keyword_search k text = keyword_scan None (lower text) (lower k)"

text \<open>
  The sender patterns are compiled as regular expressions; those of the rule set contain no
  regular-expression operator, so their search is the case-insensitive substring test.
\<close>

definition sender_search :: "string \<Rightarrow> string \<Rightarrow> bool" where
  "sender_search p s = str_in (lower p) (lower s)"

definition count_matches :: "(string \<Rightarrow> bool) \<Rightarrow> string list \<Rightarrow> rat" where
  "count_matches hit ps = of_nat (length (filter hit ps))"

text \<open>
  \<open>_calculate_category_score\<close>. \<open>patterns\<close> is
  \<open>self.compiled_patterns.get(rules.get('category', ''), {})\<close>, and the two pattern
  lists are \<open>patterns.get('keywords', [])\<close> and \<open>patterns.get('sender_patterns', [])\<close>.
\<close>

definition calculate_category_score ::
    "(string \<times> string list \<times> string list) list \<Rightarrow> string \<Rightarrow> string \<Rightarrow> category_rule \<Rightarrow> rat" where
  "calculate_category_score compiled_patterns text sndr rules =
     (let patterns =
            (case map_of compiled_patterns
                    (case category_key rules of None \<Rightarrow> [] | Some c \<Rightarrow> c) of
               None \<Rightarrow> ([], [])
             | Some p \<Rightarrow> p);
          keyword_matches = count_matches (\<lambda>k. keyword_search k text) (fst patterns);
          score1 = 0 + keyword_matches * 2 * weight rules;
          sender_matches = count_matches (\<lambda>p. sender_search p sndr) (snd patterns);
          score2 = score1 + sender_matches * 3 * weight rules;
          priority_bonus = of_int (5 - priority rules) * (1 / 2)
      in score2 + priority_bonus)"

text \<open>
  \<open>max(category_scores.items(), key=lambda x: x[1])\<close>: the first item with the greatest
  score, in insertion order.
\<close>

fun max_item :: "(string \<times> rat) \<Rightarrow> (string \<times> rat) list \<Rightarrow> string \<times> rat" where
  "max_item best [] = best"
| "max_item best (x # xs) = max_item (if snd best < snd x then x else best) xs"

text \<open>
  \<open>categorize_email\<close> over a rule set; the statistics counters it also updates do not
  influence the category returned and are left out.
\<close>

definition categorize_email_with :: "(string \<times> category_rule) list \<Rightarrow> 'a email_scheme \<Rightarrow> string" where
  "categorize_email_with rs e =
     (let text_to_analyze = lower (subject e @ '' '' @ sender e @ '' '' @ body e);
          compiled = compile_patterns rs;
          category_scores =
            filter (\<lambda>(c, score). score > 0)
              (map (\<lambda>(c, r). (c, calculate_category_score compiled text_to_analyze
                                     (lower (sender e)) r)) rs)
      in case category_scores of
           [] \<Rightarrow> default_category
         | x # xs \<Rightarrow> fst (max_item x xs))"

definition categorize_email :: "'a email_scheme \<Rightarrow> string" where
  "categorize_email e = categorize_email_with category_rules e"


section \<open>Exceptions, bytes and codecs\<close>

text \<open>
  A Python call that may raise is a value of \<open>exn + 'a\<close>: \<open>Inl\<close> carries the exception,
  \<open>Inr\<close> the result. Every \<open>except Exception\<close> of the source catches all of them.
\<close>

datatype exn =
    UnicodeDecodeError
  | LookupError string
  | IMAPError string
  | OtherError string

type_synonym byte = "8 word"

text \<open>
  \<open>bytes.decode('latin1')\<close>: every byte is the code point of the same number.
  \<open>bytes.decode('ascii')\<close>: the same on bytes below 128, \<open>UnicodeDecodeError\<close>
  otherwise.
\<close>

definition latin1_decode :: "byte list \<Rightarrow> exn + string" where
  "latin1_decode bs = Inr (map (\<lambda>b. char_of (unat b)) bs)"

definition ascii_decode :: "byte list \<Rightarrow> exn + string" where
  "ascii_decode bs =
     (if list_all (\<lambda>b. unat b < 128) bs then Inr (map (\<lambda>b. char_of (unat b)) bs)
      else Inl UnicodeDecodeError)"

text \<open>
  The codecs whose behaviour the source does not fix are parameters: the strict and the
  \<open>errors='ignore'\<close> UTF-8 decoders, and the strict decoders of the remaining charset
  names (which raise \<open>LookupError\<close> on an unknown name).
\<close>

record codecs =
  utf8_strict :: "byte list \<Rightarrow> exn + string"
  utf8_ignore :: "byte list \<Rightarrow> exn + string"
  other_codec :: "string \<Rightarrow> byte list \<Rightarrow> exn + string"

text \<open>\<open>part.decode(charset)\<close> with the default \<open>errors='strict'\<close>.\<close>

definition bytes_decode :: "codecs \<Rightarrow> string \<Rightarrow> byte list \<Rightarrow> exn + string" where
  "bytes_decode cd charset bs =
     (let name = lower charset in
        if name \<in> set [''utf-8'', ''utf8'', ''utf_8''] then utf8_strict cd bs
        else if name \<in> set [''latin1'', ''latin-1'', ''iso-8859-1'', ''iso8859-1'']
          then latin1_decode bs
        else if name \<in> set [''ascii'', ''us-ascii''] then ascii_decode bs
        else other_codec cd name bs)"


section \<open>Body extraction (\_extract\_email\_body)\<close>

text \<open>
  The three-step ladder applied to a payload that is not \<open>None\<close>; the result is the
  body and the lines written to the error log.
\<close>

definition decode_payload :: "codecs \<Rightarrow> byte list \<Rightarrow> string \<times> string list" where
  "decode_payload cd payload =
     (case utf8_strict cd payload of
        Inr s \<Rightarrow> (s, [])
      | Inl e_utf8 \<Rightarrow>
          (case latin1_decode payload of
             Inr s \<Rightarrow> (s, [])
           | Inl e_latin1 \<Rightarrow>
               (case utf8_ignore cd payload of
                  Inr s \<Rightarrow> (s, [])
                | Inl e_ignore \<Rightarrow> ([], [''Body decode failed'']))))"

text \<open>
  What the function reads of a parsed message. Each accessor is the value the library call
  returns or the exception it raises: \<open>get_content_type()\<close>,
  \<open>str(part.get("Content-Disposition"))\<close>, \<open>get_payload(decode=True)\<close> of a part;
  \<open>is_multipart()\<close>, \<open>walk()\<close> and \<open>get_payload(decode=True)\<close> of the message.
\<close>

record mime_part =
  part_content_type :: "exn + string"
  part_disposition :: "exn + string"
  part_payload :: "exn + byte list option"

record message =
  msg_is_multipart :: "exn + bool"
  msg_walk :: "exn + mime_part list"
  msg_payload :: "exn + byte list option"

definition payload_body :: "codecs \<Rightarrow> exn + byte list option \<Rightarrow> exn + string \<times> string list" where
  "payload_body cd got =
     (case got of
        Inl e \<Rightarrow> Inl e
      | Inr None \<Rightarrow> Inr ([], [])
      | Inr (Some payload) \<Rightarrow> Inr (decode_payload cd payload))"

text \<open>The loop over \<open>walk()\<close>: the first plain-text part that is not an attachment.\<close>

fun scan_parts :: "codecs \<Rightarrow> mime_part list \<Rightarrow> exn + string \<times> string list" where
  "scan_parts cd [] = Inr ([], [])"
| "scan_parts cd (p # ps) =
     (case part_content_type p of
        Inl e \<Rightarrow> Inl e
      | Inr content_type \<Rightarrow>
          (case part_disposition p of
             Inl e \<Rightarrow> Inl e
           | Inr content_disposition \<Rightarrow>
               if content_type = ''text/plain'' \<and> \<not> str_in ''attachment'' content_disposition
               then payload_body cd (part_payload p)
               else scan_parts cd ps))"

text \<open>The body of the \<open>try\<close> block.\<close>

definition extract_body_try :: "codecs \<Rightarrow> message \<Rightarrow> exn + string \<times> string list" where
  "extract_body_try cd m =
     (case msg_is_multipart m of
        Inl e \<Rightarrow> Inl e
      | Inr True \<Rightarrow> (case msg_walk m of Inl e \<Rightarrow> Inl e | Inr ps \<Rightarrow> scan_parts cd ps)
      | Inr False \<Rightarrow> payload_body cd (msg_payload m))"

text \<open>
  \<open>_extract_email_body\<close>: the \<open>except Exception\<close> handler logs and sets the body to the
  empty string; the result is \<open>body.strip()\<close>.
\<close>

definition extract_email_body :: "codecs \<Rightarrow> message \<Rightarrow> string \<times> string list" where
  "extract_email_body cd m =
     (case extract_body_try cd m of
        Inl e \<Rightarrow> (strip [], [''Error extracting email body''])
      | Inr (b, lg) \<Rightarrow> (strip b, lg))"


section \<open>Header decoding (\_decode\_header and \_decode\_email\_header)\<close>

text \<open>
  \<open>email.header.decode_header\<close> returns a list of segments, each a \<open>bytes\<close> or a
  \<open>str\<close> with an optional charset; the parser is a parameter.
\<close>

datatype segment = SegBytes "byte list" | SegStr string

type_synonym header_parser = "string \<Rightarrow> exn + (segment \<times> string option) list"

text \<open>
  One turn of the loop of \<open>_decode_header\<close>: \<open>part.decode(encoding)\<close> when the
  segment is bytes and its encoding is truthy, \<open>part.decode('utf-8', errors='ignore')\<close>
  when it is bytes without encoding, the text itself otherwise.
\<close>

definition decode_segment :: "codecs \<Rightarrow> segment \<times> string option \<Rightarrow> exn + string" where
  "decode_segment cd seg =
     (case seg of
        (SegStr s, enc) \<Rightarrow> Inr s
      | (SegBytes bs, enc) \<Rightarrow>
          (case enc of
             None \<Rightarrow> utf8_ignore cd bs
           | Some encoding \<Rightarrow>
               if encoding \<noteq> [] then bytes_decode cd encoding bs else utf8_ignore cd bs))"

fun decode_segments ::
    "codecs \<Rightarrow> string \<Rightarrow> (segment \<times> string option) list \<Rightarrow> exn + string" where
  "decode_segments cd decoded_string [] = Inr decoded_string"
| "decode_segments cd decoded_string (seg # segs) =
     (case decode_segment cd seg of
        Inl e \<Rightarrow> Inl e
      | Inr s \<Rightarrow> decode_segments cd (decoded_string @ s) segs)"

text \<open>
  \<open>_decode_header\<close>. The argument is \<open>None\<close> for a missing header. The \<open>except\<close>
  handler returns the raw header.
\<close>

definition decode_header_py :: "codecs \<Rightarrow> header_parser \<Rightarrow> string option \<Rightarrow> string" where
  "decode_header_py cd parse header =
     (case header of
        None \<Rightarrow> []
      | Some h \<Rightarrow>
          if h = [] then []
          else (case (case parse h of Inl e \<Rightarrow> Inl e
                       | Inr decoded_parts \<Rightarrow> decode_segments cd [] decoded_parts) of
                  Inl e \<Rightarrow> h
                | Inr decoded_string \<Rightarrow> decoded_string))"

text \<open>
  \<open>_decode_email_header\<close>: each bytes segment is decoded with
  \<open>part.decode(charset or 'utf-8')\<close>, the pieces are joined with single spaces, and
  the \<open>except\<close> handler logs and returns the empty string.
\<close>

definition decode_email_segment :: "codecs \<Rightarrow> segment \<times> string option \<Rightarrow> exn + string" where
  "decode_email_segment cd seg =
     (case seg of
        (SegStr s, charset) \<Rightarrow> Inr s
      | (SegBytes bs, charset) \<Rightarrow>
          bytes_decode cd
            (case charset of None \<Rightarrow> ''utf-8''
             | Some c \<Rightarrow> if c \<noteq> [] then c else ''utf-8'') bs)"

fun decode_email_segments ::
    "codecs \<Rightarrow> (segment \<times> string option) list \<Rightarrow> exn + string list" where
  "decode_email_segments cd [] = Inr []"
| "decode_email_segments cd (seg # segs) =
     (case decode_email_segment cd seg of
        Inl e \<Rightarrow> Inl e
      | Inr s \<Rightarrow>
          (case decode_email_segments cd segs of
             Inl e \<Rightarrow> Inl e
           | Inr ss \<Rightarrow> Inr (s # ss)))"

fun join_space :: "string list \<Rightarrow> string" where
  "join_space [] = []"
| "join_space [s] = s"
| "join_space (s # t # ss) = s @ '' '' @ join_space (t # ss)"

definition decode_email_header :: "codecs \<Rightarrow> header_parser \<Rightarrow> string option \<Rightarrow> string" where
  "decode_email_header cd parse header =
     (case header of
        None \<Rightarrow> []
      | Some h \<Rightarrow>
          (case (case parse h of Inl e \<Rightarrow> Inl e
                  | Inr decoded_header \<Rightarrow> decode_email_segments cd decoded_header) of
             Inl e \<Rightarrow> []
           | Inr pieces \<Rightarrow> join_space pieces))"

text \<open>
  The codec table and the parser of the examples. The two UTF-8 fields agree with Python's
  decoders on every byte string that holds no valid multi-byte sequence (a byte from 128
  on is then undecodable: the strict decoder raises, the ignoring one drops it). The parser
  is that of a header made of one encoded word.
\<close>

definition example_codecs :: codecs where
  "example_codecs =
     \<lparr>utf8_strict = ascii_decode,
      utf8_ignore = (\<lambda>bs. Inr (map (\<lambda>b. char_of (unat b)) (filter (\<lambda>b. unat b < 128) bs))),
      other_codec = (\<lambda>name bs. Inl (LookupError name))\<rparr>"

definition one_word_parser :: "byte list \<Rightarrow> string \<Rightarrow> header_parser" where
  "one_word_parser bs charset = (\<lambda>h. Inr [(SegBytes bs, Some charset)])"


section \<open>hashlib.md5 and str.encode('utf-8')\<close>

unbundle bit_operations_syntax

text \<open>
  \<open>s.encode('utf-8')\<close> on the code points the text model covers: one byte below 128,
  two bytes from 128 to 255.
\<close>

definition utf8_char :: "char \<Rightarrow> byte list" where
  "utf8_char c =
     (let n = cp c in
        if n < 128 then [of_nat n]
        else [of_nat (192 + n div 64), of_nat (128 + n mod 64)])"

definition encode_utf8 :: "string \<Rightarrow> byte list" where
  "encode_utf8 s = concat (map utf8_char s)"

text \<open>MD5 (RFC 1321): shift amounts, sine constants, one round, one block, padding.\<close>

definition md5_s :: "nat list" where
  "md5_s =
     [7, 12, 17, 22, 7, 12, 17, 22, 7, 12, 17, 22, 7, 12, 17, 22,
      5, 9, 14, 20, 5, 9, 14, 20, 5, 9, 14, 20, 5, 9, 14, 20,
      4, 11, 16, 23, 4, 11, 16, 23, 4, 11, 16, 23, 4, 11, 16, 23,
      6, 10, 15, 21, 6, 10, 15, 21, 6, 10, 15, 21, 6, 10, 15, 21]"

definition md5_K :: "32 word list" where
  "md5_K =
     [0xd76aa478, 0xe8c7b756, 0x242070db, 0xc1bdceee,
      0xf57c0faf, 0x4787c62a, 0xa8304613, 0xfd469501,
      0x698098d8, 0x8b44f7af, 0xffff5bb1, 0x895cd7be,
      0x6b901122, 0xfd987193, 0xa679438e, 0x49b40821,
      0xf61e2562, 0xc040b340, 0x265e5a51, 0xe9b6c7aa,
      0xd62f105d, 0x02441453, 0xd8a1e681, 0xe7d3fbc8,
      0x21e1cde6, 0xc33707d6, 0xf4d50d87, 0x455a14ed,
      0xa9e3e905, 0xfcefa3f8, 0x676f02d9, 0x8d2a4c8a,
      0xfffa3942, 0x8771f681, 0x6d9d6122, 0xfde5380c,
      0xa4beea44, 0x4bdecfa9, 0xf6bb4b60, 0xbebfbc70,
      0x289b7ec6, 0xeaa127fa, 0xd4ef3085, 0x04881d05,
      0xd9d4d039, 0xe6db99e5, 0x1fa27cf8, 0xc4ac5665,
      0xf4292244, 0x432aff97, 0xab9423a7, 0xfc93a039,
      0x655b59c3, 0x8f0ccc92, 0xffeff47d, 0x85845dd1,
      0x6fa87e4f, 0xfe2ce6e0, 0xa3014314, 0x4e0811a1,
      0xf7537e82, 0xbd3af235, 0x2ad7d2bb, 0xeb86d391]"

definition rotl32 :: "32 word \<Rightarrow> nat \<Rightarrow> 32 word" where
  "rotl32 x n = (push_bit n x) OR (drop_bit (32 - n) x)"

type_synonym md5_state = "32 word \<times> 32 word \<times> 32 word \<times> 32 word"

definition md5_round :: "32 word list \<Rightarrow> nat \<Rightarrow> md5_state \<Rightarrow> md5_state" where
  "md5_round M i st =
     (case st of (a, b, c, d) \<Rightarrow>
        let f = (if i < 16 then (b AND c) OR (NOT b AND d)
                 else if i < 32 then (d AND b) OR (NOT d AND c)
                 else if i < 48 then b XOR c XOR d
                 else c XOR (b OR NOT d));
            g = (if i < 16 then i
                 else if i < 32 then (5 * i + 1) mod 16
                 else if i < 48 then (3 * i + 5) mod 16
                 else (7 * i) mod 16);
            f2 = f + a + md5_K ! i + M ! g
        in (d, b + rotl32 f2 (md5_s ! i), b, c))"

fun le_words :: "byte list \<Rightarrow> 32 word list" where
  "le_words (b0 # b1 # b2 # b3 # bs) =
     (ucast b0 OR push_bit 8 (ucast b1) OR push_bit 16 (ucast b2) OR push_bit 24 (ucast b3))
       # le_words bs"
| "le_words bs = []"

definition md5_block :: "md5_state \<Rightarrow> byte list \<Rightarrow> md5_state" where
  "md5_block st blk =
     (case st of (a0, b0, c0, d0) \<Rightarrow>
        case fold (md5_round (le_words blk)) [0..<64] st of (a, b, c, d) \<Rightarrow>
          (a0 + a, b0 + b, c0 + c, d0 + d))"

text \<open>
  Padding: the byte 0x80, zero bytes up to 56 modulo 64, and the length of the message in
  bits as a 64-bit little-endian number.
\<close>

definition length_bytes :: "64 word \<Rightarrow> byte list" where
  "length_bytes w =
     [ucast w, ucast (drop_bit 8 w), ucast (drop_bit 16 w), ucast (drop_bit 24 w),
      ucast (drop_bit 32 w), ucast (drop_bit 40 w), ucast (drop_bit 48 w),
      ucast (drop_bit 56 w)]"

definition md5_pad :: "byte list \<Rightarrow> byte list" where
  "md5_pad m =
     m @ [0x80] @ replicate ((119 - length m mod 64) mod 64) 0
       @ length_bytes (8 * of_nat (length m))"

function blocks64 :: "byte list \<Rightarrow> byte list list" where
  "blocks64 bs = (if length bs < 64 then [] else take 64 bs # blocks64 (drop 64 bs))"
  by pat_completeness auto
termination
  by (relation "measure length") auto

declare blocks64.simps [simp del]

definition hex_digit :: "nat \<Rightarrow> char" where
  "hex_digit n = (if n < 10 then char_of (48 + n) else char_of (87 + n))"

definition hex_byte :: "byte \<Rightarrow> string" where
  "hex_byte b = [hex_digit (unat b div 16), hex_digit (unat b mod 16)]"

definition word_le_bytes :: "32 word \<Rightarrow> byte list" where
  "word_le_bytes w = [ucast w, ucast (drop_bit 8 w), ucast (drop_bit 16 w), ucast (drop_bit 24 w)]"

definition md5_digest :: "byte list \<Rightarrow> byte list" where
  "md5_digest m =
     (case fold (\<lambda>blk st. md5_block st blk) (blocks64 (md5_pad m))
             (0x67452301, 0xefcdab89, 0x98badcfe, 0x10325476) of
        (a, b, c, d) \<Rightarrow> word_le_bytes a @ word_le_bytes b @ word_le_bytes c @ word_le_bytes d)"

text \<open>\<open>hashlib.md5(s.encode('utf-8')).hexdigest()\<close>.\<close>

definition md5_hexdigest :: "string \<Rightarrow> string" where
  "md5_hexdigest s = concat (map hex_byte (md5_digest (encode_utf8 s)))"


section \<open>The emails table (models/db\_models.py)\<close>

text \<open>
  A row of the table \<open>emails\<close>, whose primary key is \<open>id\<close>; \<open>email_hash\<close> and
  \<open>message_id\<close> are stored as the empty string when the Email object has \<open>None\<close>.
  The database is the list of account addresses of \<open>email_accounts\<close> and the rows of
  \<open>emails\<close> in the order a query without \<open>ORDER BY\<close> returns them; comparison of
  stored strings is equality.
\<close>

record row =
  row_id :: string
  row_account_email :: string
  row_subject :: string
  row_sender :: string
  row_date :: string
  row_body :: string
  row_category :: string
  row_main_category :: string
  row_sub_category :: string
  row_is_read :: bool
  row_email_hash :: string
  row_message_id :: string

record database =
  accounts :: "string list"
  emails :: "row list"

definition empty_db :: "string list \<Rightarrow> database" where
  "empty_db accts = \<lparr>accounts = accts, emails = []\<rparr>"

text \<open>Python truthiness of an optional string: neither \<open>None\<close> nor empty.\<close>

definition truthy :: "string option \<Rightarrow> bool" where
  "truthy x = (case x of None \<Rightarrow> False | Some s \<Rightarrow> s \<noteq> [])"

definition or_empty :: "string option \<Rightarrow> string" where
  "or_empty x = (case x of None \<Rightarrow> [] | Some s \<Rightarrow> s)"

text \<open>
  \<open>email_exists(message_id, email_hash)\<close>. The flag says that the database call raises
  inside the \<open>try\<close> block. The query is built by \<open>if message_id: ... elif email_hash:
  ...\<close>, and the result is the id of the first row returned, or \<open>None\<close> (the early
  \<open>return False\<close> is as falsy as \<open>None\<close> for the caller). The second component is
  what the function logs.
\<close>

definition email_exists ::
    "database \<Rightarrow> bool \<Rightarrow> string option \<Rightarrow> string option \<Rightarrow> string option \<times> string list" where
  "email_exists db raises msg_id e_hash =
     (if \<not> truthy msg_id \<and> \<not> truthy e_hash then (None, [])
      else if raises then (None, [''Error checking if email exists''])
      else if truthy msg_id
        then (map_option row_id (find (\<lambda>r. row_message_id r = or_empty msg_id) (emails db)), [])
        else (map_option row_id (find (\<lambda>r. row_email_hash r = or_empty e_hash) (emails db)), []))"

text \<open>
  \<open>save_email\<close>: the id is cleaned of a \<open>b'...'\<close> wrapper, the account must exist, and
  the statement is \<open>INSERT ... ON DUPLICATE KEY UPDATE\<close>, which on an existing id
  rewrites the listed columns only (not subject, sender, date, body or account).
\<close>

definition clean_id :: "string \<Rightarrow> string" where
  "clean_id s =
     (if startswith s [CHR ''b'', CHR 0x27] \<and> s \<noteq> [] \<and> last s = CHR 0x27
      then butlast (drop 2 s) else s)"

definition row_of_email :: "'a email_scheme \<Rightarrow> row" where
  "row_of_email e =
     \<lparr>row_id = clean_id (eid e), row_account_email = account_email e,
      row_subject = subject e, row_sender = sender e, row_date = date e, row_body = body e,
      row_category = category e, row_main_category = main_category e,
      row_sub_category = sub_category e, row_is_read = is_read e,
      row_email_hash = or_empty (email_hash e), row_message_id = or_empty (message_id e)\<rparr>"

definition on_duplicate_key_update :: "row \<Rightarrow> row \<Rightarrow> row" where
  "on_duplicate_key_update new old =
     old\<lparr>row_is_read := row_is_read new, row_category := row_category new,
         row_main_category := row_main_category new,
         row_sub_category := row_sub_category new,
         row_email_hash := row_email_hash new, row_message_id := row_message_id new\<rparr>"

definition upsert :: "row \<Rightarrow> row list \<Rightarrow> row list" where
  "upsert new rows =
     (if row_id new \<in> set (map row_id rows)
      then map (\<lambda>old. if row_id old = row_id new then on_duplicate_key_update new old else old) rows
      else rows @ [new])"

definition save_email :: "database \<Rightarrow> bool \<Rightarrow> 'a email_scheme \<Rightarrow> database \<times> bool \<times> string list" where
  "save_email db raises e =
     (if raises then (db, False, [''Failed to save email''])
      else if account_email e \<notin> set (accounts db)
        then (db, False, [''Cannot save email: Email account does not exist''])
      else (db\<lparr>emails := upsert (row_of_email e) (emails db)\<rparr>, True, []))"


section \<open>The per-account pipeline (fetch\_emails\_from\_account)\<close>

text \<open>
  \<open>generate_email_hash\<close>: the MD5 of \<open>f"{subject}_{sender}_{date_str}_{email_id}"\<close>.
\<close>

definition unique_fields :: "'a email_scheme \<Rightarrow> string" where
  "unique_fields e = subject e @ ''_'' @ sender e @ ''_'' @ date e @ ''_'' @ eid e"

definition generate_email_hash :: "'a email_scheme \<Rightarrow> string" where
  "generate_email_hash e = md5_hexdigest (unique_fields e)"

text \<open>
  What goes wrong while one message is processed: \<open>generate_email_hash\<close> raises, the
  lookup's database call raises, the save's database call raises.
\<close>

record faults =
  hash_raises :: bool
  lookup_raises :: bool
  save_raises :: bool

definition no_faults :: faults where
  "no_faults = \<lparr>hash_raises = False, lookup_raises = False, save_raises = False\<rparr>"

text \<open>
  The state of the loop: the database, the list \<open>emails\<close> the function returns, and
  the log.
\<close>

record loop_state =
  db :: database
  new_emails :: "email list"
  logged :: "string list"

text \<open>
  One turn of the loop, for the candidate that \<open>_fetch_single_email\<close> returned
  (\<open>None\<close> when it failed). An exception in the turn is caught by the loop's own
  \<open>except\<close>, which logs and goes on with the next message.
\<close>

definition process_candidate :: "loop_state \<Rightarrow> faults \<times> email option \<Rightarrow> loop_state" where
  "process_candidate st item =
     (case item of
        (f, None) \<Rightarrow> st
      | (f, Some email_obj) \<Rightarrow>
          if hash_raises f then st\<lparr>logged := logged st @ [''Error fetching email'']\<rparr>
          else
            let e1 = email_obj\<lparr>email_hash := Some (generate_email_hash email_obj)\<rparr>;
                cat = enhanced_categorize_email e1;
                e2 = e1\<lparr>main_category := fst cat, sub_category := snd cat,
                         category := fst cat @ ''_'' @ snd cat\<rparr>;
                looked = email_exists (db st) (lookup_raises f) (message_id e2) (email_hash e2);
                existing_email_id = fst looked;
                e3 = (if truthy existing_email_id then e2\<lparr>eid := or_empty existing_email_id\<rparr>
                      else e2);
                saved = save_email (db st) (save_raises f) e3
            in \<lparr>db = fst saved,
                new_emails = (if truthy existing_email_id then new_emails st
                              else new_emails st @ [e3]),
                logged = logged st @ snd looked @ snd (snd saved)
                         @ [if truthy existing_email_id then ''Email updated''
                            else ''Email fetched and saved'']\<rparr>)"

text \<open>\<open>email_nums[-limit:]\<close> when \<open>limit\<close> is truthy.\<close>

definition apply_limit :: "int option \<Rightarrow> 'a list \<Rightarrow> 'a list" where
  "apply_limit limit xs =
     (case limit of
        None \<Rightarrow> xs
      | Some n \<Rightarrow>
          if n = 0 then xs
          else if n > 0 then drop (length xs - nat n) xs
          else drop (nat (- n)) xs)"

definition exn_str :: "exn \<Rightarrow> string" where
  "exn_str e =
     (case e of
        UnicodeDecodeError \<Rightarrow> ''codec can not decode''
      | LookupError s \<Rightarrow> ''unknown encoding: '' @ s
      | IMAPError s \<Rightarrow> s
      | OtherError s \<Rightarrow> s)"

text \<open>
  The IMAP session of one account: connecting, logging in, selecting the inbox or searching
  raises, or the search returns its status and one item per sequence number.
\<close>

type_synonym session = "exn + bool \<times> (faults \<times> email option) list"

definition fetch_emails_from_account ::
    "database \<Rightarrow> session \<Rightarrow> int option \<Rightarrow> database \<times> string list \<times> (exn + email list)" where
  "fetch_emails_from_account d s limit =
     (case s of
        Inl (IMAPError m) \<Rightarrow>
          (d, [''IMAP error''], Inl (OtherError (''Failed to connect to email account: '' @ m)))
      | Inl e \<Rightarrow>
          (d, [''Unexpected error fetching emails''],
           Inl (OtherError (''Email fetch failed: '' @ exn_str e)))
      | Inr (status_ok, items) \<Rightarrow>
          if \<not> status_ok then (d, [], Inr [])
          else
            let st = foldl process_candidate \<lparr>db = d, new_emails = [], logged = []\<rparr>
                       (apply_limit limit items)
            in (db st, logged st, Inr (new_emails st)))"


section \<open>The orchestrating passes\<close>

text \<open>
  What one configured account meets in a pass: the result of
  \<open>test_account_connection\<close> and its IMAP session.
\<close>

record account_run =
  acct :: string
  connection_ok :: bool
  acct_session :: session

definition account_fails :: "account_run \<Rightarrow> bool" where
  "account_fails a = (\<not> connection_ok a \<or> isl (acct_session a))"

record fetch_results =
  total_accounts :: nat
  successful_accounts :: nat
  failed_accounts :: nat
  total_emails_fetched :: nat
  errors :: "string list"

text \<open>
  The state of a pass: the database, the aggregate result, and the accounts whose turn of the
  loop was entered.
\<close>

record pass_state =
  pass_db :: database
  results :: fetch_results
  attempted :: "string list"

text \<open>One turn of the loop of the manual endpoint \<open>fetch_emails\<close> (routes/email\_routes.py).\<close>

definition fetch_one_account :: "int option \<Rightarrow> pass_state \<Rightarrow> account_run \<Rightarrow> pass_state" where
  "fetch_one_account limit ps a =
     (let ps1 = ps\<lparr>attempted := attempted ps @ [acct a]\<rparr>; r = results ps in
        if \<not> connection_ok a then
          ps1\<lparr>results := r\<lparr>errors := errors r @ [''Connection failed for account: '' @ acct a],
                              failed_accounts := failed_accounts r + 1\<rparr>\<rparr>
        else
          (case fetch_emails_from_account (pass_db ps) (acct_session a) limit of
             (d, lg, Inl e) \<Rightarrow>
               ps1\<lparr>pass_db := d,
                   results := r\<lparr>errors := errors r
                                   @ [''Error fetching from '' @ acct a @ '': '' @ exn_str e],
                                 failed_accounts := failed_accounts r + 1\<rparr>\<rparr>
           | (d, lg, Inr fetched) \<Rightarrow>
               ps1\<lparr>pass_db := foldl (\<lambda>d e. fst (save_email d False e)) d fetched,
                   results := r\<lparr>total_emails_fetched := total_emails_fetched r + length fetched,
                                 successful_accounts := successful_accounts r + 1\<rparr>\<rparr>))"

text \<open>
  The endpoint answers 400 when no account is configured, and otherwise 200 with the
  aggregate result.
\<close>

datatype response = NoAccounts | Completed pass_state

definition fetch_emails_route :: "database \<Rightarrow> int option \<Rightarrow> account_run list \<Rightarrow> response" where
  "fetch_emails_route d limit accts =
     (if accts = [] then NoAccounts
      else Completed
        (foldl (fetch_one_account limit)
           \<lparr>pass_db = d,
            results = \<lparr>total_accounts = length accts, successful_accounts = 0,
                       failed_accounts = 0, total_emails_fetched = 0, errors = []\<rparr>,
            attempted = []\<rparr>
           accts))"

text \<open>
  The background pass \<open>BackgroundTaskManager._fetch_emails\<close> (utils/background\_tasks.py):
  every account is fetched without limit inside its own \<open>try\<close>; the pass keeps no
  aggregate, it only logs the failures.
\<close>

record background_state =
  bg_db :: database
  bg_logged :: "string list"
  bg_attempted :: "string list"

definition background_one_account :: "background_state \<Rightarrow> account_run \<Rightarrow> background_state" where
  "background_one_account bs a =
     (case fetch_emails_from_account (bg_db bs) (acct_session a) None of
        (d, lg, Inl e) \<Rightarrow>
          \<lparr>bg_db = d,
           bg_logged = bg_logged bs @ [''Error fetching emails for '' @ acct a @ '': '' @ exn_str e],
           bg_attempted = bg_attempted bs @ [acct a]\<rparr>
      | (d, lg, Inr fetched) \<Rightarrow>
          \<lparr>bg_db = d, bg_logged = bg_logged bs, bg_attempted = bg_attempted bs @ [acct a]\<rparr>)"

definition background_fetch_emails :: "database \<Rightarrow> account_run list \<Rightarrow> background_state" where
  "background_fetch_emails d accts =
     foldl background_one_account \<lparr>bg_db = d, bg_logged = [], bg_attempted = []\<rparr> accts"

text \<open>Candidates and rows of the examples.\<close>

definition candidate :: "string \<Rightarrow> string \<Rightarrow> string option \<Rightarrow> email" where
  "candidate seq subj mid =
     \<lparr>eid = seq, account_email = ''me@example.com'', subject = subj,
      sender = ''alice@example.org'', date = ''2024-01-01 10:00:00'', body = ''Hi'',
      category = ''general'', main_category = ''general'', sub_category = ''general'',
      is_read = False, email_hash = None, message_id = mid\<rparr>"

definition stored_row :: "string \<Rightarrow> string \<Rightarrow> string \<Rightarrow> row" where
  "stored_row i mid h =
     \<lparr>row_id = i, row_account_email = ''me@example.com'', row_subject = ''Old'',
      row_sender = ''alice@example.org'', row_date = ''2023-12-31 09:00:00'', row_body = ''Hi'',
      row_category = ''general_alice'', row_main_category = ''general'',
      row_sub_category = ''alice'', row_is_read = False, row_email_hash = h,
      row_message_id = mid\<rparr>"

text \<open>
  The message an account's failure leaves in the aggregate result of the manual endpoint.
\<close>

definition account_error_message :: "account_run \<Rightarrow> string" where
  "account_error_message a =
     (if \<not> connection_ok a then ''Connection failed for account: '' @ acct a
      else ''Error fetching from '' @ acct a @ '': '' @
        (case acct_session a of
           Inl (IMAPError m) \<Rightarrow> ''Failed to connect to email account: '' @ m
         | Inl e \<Rightarrow> ''Email fetch failed: '' @ exn_str e
         | Inr s \<Rightarrow> []))"

text \<open>
  Names for the intermediate values of one turn of the loop when nothing raises: the
  candidate with its hash and categories set, the id the lookup returns for it, and the
  object handed to \<open>save_email\<close>. A session in which every message is fetched and nothing
  raises.
\<close>

definition categorized :: "email \<Rightarrow> email" where
  "categorized email_obj =
     (let e1 = email_obj\<lparr>email_hash := Some (generate_email_hash email_obj)\<rparr>;
          cat = enhanced_categorize_email e1
      in e1\<lparr>main_category := fst cat, sub_category := snd cat,
             category := fst cat @ ''_'' @ snd cat\<rparr>)"

definition existing_id :: "database \<Rightarrow> email \<Rightarrow> string option" where
  "existing_id d e =
     fst (email_exists d False (message_id e) (Some (generate_email_hash e)))"

definition resolved :: "database \<Rightarrow> email \<Rightarrow> email" where
  "resolved d e =
     (if truthy (existing_id d e) then (categorized e)\<lparr>eid := or_empty (existing_id d e)\<rparr>
      else categorized e)"

definition healthy_session :: "email list \<Rightarrow> session" where
  "healthy_session cs = Inr (True, map (\<lambda>c. (no_faults, Some c)) cs)"

text \<open>An IMAP sequence number as text: a non-empty string of digits.\<close>

definition sequence_number :: "string \<Rightarrow> bool" where
  "sequence_number s = (s \<noteq> [] \<and> list_all (\<lambda>c. c \<in> set ''0123456789'') s)"

text \<open>Three configured accounts, the second with an unreachable host.\<close>

definition three_accounts :: "account_run list" where
  "three_accounts =
     [\<lparr>acct = ''a@example.com'', connection_ok = True, acct_session = Inr (True, [])\<rparr>,
      \<lparr>acct = ''b@example.com'', connection_ok = False,
       acct_session = Inl (IMAPError ''unreachable host'')\<rparr>,
      \<lparr>acct = ''c@example.com'', connection_ok = True, acct_session = Inr (True, [])\<rparr>]"

text \<open>A database holding one message of the account, stored under the id 7.\<close>

definition one_row_db :: database where
  "one_row_db =
     \<lparr>accounts = [''me@example.com''], emails = [stored_row ''7'' ''<m1@x>'' ''h'']\<rparr>"


section \<open>The table through its key columns\<close>

text \<open>
  The dedup decisions read three columns of a row only: id, message\_id and email\_hash.
  \<open>key_step\<close> is one turn of the loop (nothing raising, account present) on those
  columns: the lookup by message identifier or else by hash, the choice of the id, and the
  insert-or-update. It is related to \<open>process_candidate\<close> by a lemma below.
\<close>

record key_row =
  key_id :: string
  key_mid :: string
  key_hash :: string

definition row_keys :: "row \<Rightarrow> key_row" where
  "row_keys r =
     \<lparr>key_id = row_id r, key_mid = row_message_id r, key_hash = row_email_hash r\<rparr>"

definition candidate_keys :: "email \<Rightarrow> key_row" where
  "candidate_keys e =
     \<lparr>key_id = eid e, key_mid = or_empty (message_id e), key_hash = generate_email_hash e\<rparr>"

definition key_lookup :: "key_row list \<Rightarrow> key_row \<Rightarrow> string option" where
  "key_lookup ks c =
     (if key_mid c \<noteq> [] then map_option key_id (find (\<lambda>k. key_mid k = key_mid c) ks)
      else map_option key_id (find (\<lambda>k. key_hash k = key_hash c) ks))"

definition key_upsert :: "key_row \<Rightarrow> key_row list \<Rightarrow> key_row list" where
  "key_upsert new ks =
     (if key_id new \<in> set (map key_id ks)
      then map (\<lambda>k. if key_id k = key_id new then new else k) ks
      else ks @ [new])"

definition key_step :: "key_row list \<Rightarrow> key_row \<Rightarrow> key_row list" where
  "key_step ks c =
     key_upsert
       (c\<lparr>key_id := clean_id (if truthy (key_lookup ks c) then or_empty (key_lookup ks c)
                                else key_id c)\<rparr>)
       ks"

text \<open>
  What holds of the key columns while the candidates \<open>cs\<close> of one mailbox are ingested
  into a table that was empty: ids are unique; the message\_id of a row is that of the
  candidate whose sequence number is the row's id; the hash of a row is the hash of a
  candidate that either has a message identifier or owns the row; a row without
  message\_id carries the hash of the candidate that owns it.
\<close>

definition key_inv :: "key_row list \<Rightarrow> key_row list \<Rightarrow> bool" where
  "key_inv cs ks =
     (distinct (map key_id ks)
      \<and> (\<forall>k\<in>set ks. \<exists>c\<in>set cs. key_id c = key_id k \<and> key_mid c = key_mid k)
      \<and> (\<forall>k\<in>set ks. \<exists>c\<in>set cs. key_hash c = key_hash k
                                  \<and> (key_mid c = [] \<longrightarrow> key_id c = key_id k))
      \<and> (\<forall>k\<in>set ks. key_mid k = [] \<longrightarrow>
             (\<exists>c\<in>set cs. key_id c = key_id k \<and> key_hash c = key_hash k)))"

text \<open>A candidate is covered when a row answers its lookup key.\<close>

definition covered :: "key_row list \<Rightarrow> key_row \<Rightarrow> bool" where
  "covered ks c =
     (\<exists>k\<in>set ks. if key_mid c \<noteq> [] then key_mid k = key_mid c else key_id k = key_id c)"

text \<open>
  The candidates of one mailbox: distinct sequence numbers, and no two of them with the
  same content hash.
\<close>

definition mailbox_keys :: "key_row list \<Rightarrow> bool" where
  "mailbox_keys cs =
     (distinct (map key_id cs)
      \<and> (\<forall>c\<in>set cs. sequence_number (key_id c))
      \<and> (\<forall>c\<in>set cs. \<forall>d\<in>set cs. key_hash c = key_hash d \<longrightarrow> c = d))"

text \<open>
  Two consecutive runs of \<open>fetch_emails_from_account\<close> over the same messages, nothing
  raising: the second starts from the database the first one left.
\<close>

definition first_run ::
    "database \<Rightarrow> email list \<Rightarrow> int option \<Rightarrow> database \<times> string list \<times> (exn + email list)" where
  "first_run d cs limit = fetch_emails_from_account d (healthy_session cs) limit"

definition second_run ::
    "database \<Rightarrow> email list \<Rightarrow> int option \<Rightarrow> database \<times> string list \<times> (exn + email list)" where
  "second_run d cs limit =
     fetch_emails_from_account (fst (first_run d cs limit)) (healthy_session cs) limit"

text \<open>
  A mailbox whose sequence numbers have moved since it was last ingested: the table holds
  the message \<open><A@x>\<close> under the id 2 it had then; in the mailbox that message now has
  the sequence number 1, and a later message \<open><B@x>\<close> has the sequence number 2.
\<close>

definition renumbered_store :: database where
  "renumbered_store =
     \<lparr>accounts = [''me@example.com''], emails = [stored_row ''2'' ''<A@x>'' ''h'']\<rparr>"

definition renumbered_mailbox :: "email list" where
  "renumbered_mailbox =
     [candidate ''1'' ''Hello'' (Some ''<A@x>''), candidate ''2'' ''World'' (Some ''<B@x>'')]"

text \<open>
  The line the background pass logs for an account whose fetch raises.
\<close>

definition background_error_message :: "account_run \<Rightarrow> string" where
  "background_error_message a =
     ''Error fetching emails for '' @ acct a @ '': '' @
       (case acct_session a of
          Inl (IMAPError m) \<Rightarrow> ''Failed to connect to email account: '' @ m
        | Inl e \<Rightarrow> ''Email fetch failed: '' @ exn_str e
        | Inr s \<Rightarrow> [])"

text \<open>
  Three configured accounts with mail: the first holds one message, the second has an
  unreachable host, the third holds one message.
\<close>

definition three_mailboxes :: "account_run list" where
  "three_mailboxes =
     [\<lparr>acct = ''a@example.com'', connection_ok = True,
       acct_session = healthy_session
         [(candidate ''1'' ''Hello'' (Some ''<a1@x>''))\<lparr>account_email := ''a@example.com''\<rparr>]\<rparr>,
      \<lparr>acct = ''b@example.com'', connection_ok = False,
       acct_session = Inl (IMAPError ''unreachable host'')\<rparr>,
      \<lparr>acct = ''c@example.com'', connection_ok = True,
       acct_session = healthy_session
         [(candidate ''2'' ''World'' (Some ''<c2@x>''))\<lparr>account_email := ''c@example.com''\<rparr>]\<rparr>]"

text \<open>
  Two accounts whose mailboxes each hold one message: both messages have the sequence
  number 1 in their own mailbox.
\<close>

definition mailbox_a :: "email list" where
  "mailbox_a = [(candidate ''1'' ''Hello'' (Some ''<A@x>''))\<lparr>account_email := ''a@example.com''\<rparr>]"

definition mailbox_b :: "email list" where
  "mailbox_b = [(candidate ''1'' ''World'' (Some ''<B@x>''))\<lparr>account_email := ''b@example.com''\<rparr>]"


text \<open>One pass over the two accounts, nothing raising: the first account, then the second.\<close>

definition two_account_pass :: "database \<Rightarrow> database" where
  "two_account_pass d = fst (first_run (fst (first_run d mailbox_a None)) mailbox_b None)"


section \<open>Properties of the text primitives\<close>

















section \<open>The sender slug\<close>














section \<open>The hierarchical categorizer: the claims\<close>

text \<open>
  Claim C6, as stated: the message with subject "Invoice #1234 due" from
  billing@vendor.com gets the main category "billing". It does not: the company predicate
  stands before the billing predicate in the chain and its keyword list contains
  "invoice", so the chain stops there. The billing predicate alone would accept the
  subject.
\<close>

theorem invoice_scenario_not_billing:
  "fst (enhanced_categorize_email
          (mk_email ''Invoice #1234 due'' ''billing@vendor.com'' '''')) \<noteq> ''billing''
   \<and> is_billing_email (lower ''Invoice #1234 due'') (lower ''billing@vendor.com'')"
  by code_simp

text \<open>
  Claim C6, amended: whatever its body and other fields, a message with subject
  "Invoice #1234 due" from billing@vendor.com is categorized as main category "company"
  with sub-category "vendor" (the first label of the sender's domain).
\<close>

theorem invoice_scenario_is_company:
  "enhanced_categorize_email
     (e\<lparr>subject := ''Invoice #1234 due'', sender := ''billing@vendor.com''\<rparr>)
   = (''company'', ''vendor'')"
proof -
  let ?s = "lower ''Invoice #1234 due''" and ?f = "lower ''billing@vendor.com''"
  have bank: "\<not> is_bank_email ?s ?f (extract_domain ?f)" by code_simp
  have comp: "is_company_email ?s ?f (extract_domain ?f)" by code_simp
  have name: "detect_company_name_dynamic ?s ?f (extract_domain ?f)
                (extract_sender_name ''billing@vendor.com'') = ''vendor''" by code_simp
  show ?thesis
    by (simp add: enhanced_categorize_email_def Let_def bank comp name)
qed





section \<open>The flat weighted categorizer: the claim\<close>

text \<open>
  The compiled patterns are stored under the category names; the scoring function looks
  them up under \<open>rules.get('category', '')\<close>, and no rule has that key. So the lookup
  is under the empty name, which is not a category.
\<close>

lemma map_of_compiled_empty: "map_of (compile_patterns category_rules) [] = None"
  by (simp add: compile_patterns_def category_rules_def)

lemma default_rule_score:
  assumes "(c, r) \<in> set category_rules"
  shows "calculate_category_score (compile_patterns category_rules) text sndr r
         = of_int (5 - priority r) / 2"
proof -
  from assms have "category_key r = None"
    by (auto simp: category_rules_def)
  then show ?thesis
    by (simp add: calculate_category_score_def map_of_compiled_empty count_matches_def)
qed

lemma scores_default:
  "map (\<lambda>(c, r). (c, calculate_category_score (compile_patterns category_rules) text sndr r))
       category_rules
   = [(''billing'', 2), (''support'', 3 / 2), (''marketing'', 1), (''notification'', 1 / 2),
      (''security'', 5 / 2)]"
  by (simp add: category_rules_def calculate_category_score_def count_matches_def
        compile_patterns_def)

text \<open>
  Had the billing rule carried its own name under the key \<open>category\<close>, the same scoring
  function would count its matches: two keywords (invoice, billing) and one sender pattern
  (billing@) give 2 * 2 * 1.5 + 1 * 3 * 1.5 + (5 - 1) * 0.5 = 12.5.
\<close>

lemma score_with_category_key:
  "calculate_category_score (compile_patterns category_rules)
     ''invoice #1234 due billing@vendor.com '' ''billing@vendor.com''
     \<lparr>category_key = Some ''billing'', rule_keywords = [], sender_patterns = [],
      priority = 1, weight = 3 / 2\<rparr>
   = 25 / 2"
  by code_simp

text \<open>
  Claim C1 says that \<open>categorize_email\<close> scores each rule by its keyword and sender
  matches, returns the best rule, and returns "general" when nothing matches. The code's
  scores never contain a match count: every rule scores its priority bonus alone (billing
  2, support 1.5, marketing 1, notification 0.5, security 2.5), all of them positive, so
  the result is "security" for every email, and "general" is never returned.
\<close>

theorem categorize_email_always_security:
  "categorize_email e = ''security''"
  by (simp add: categorize_email_def categorize_email_with_def Let_def scores_default)


section \<open>Body extraction: the claim\<close>

lemma decode_payload_chain:
  "decode_payload cd payload =
     (case utf8_strict cd payload of
        Inr s \<Rightarrow> (s, [])
      | Inl e \<Rightarrow> (map (\<lambda>b. char_of (unat b)) payload, []))"
  by (simp add: decode_payload_def latin1_decode_def split: sum.splits)

lemma strip_empty: "strip [] = []"
  by (simp add: strip_def)

lemma extract_email_body_caught:
  "extract_body_try cd m = Inl e \<Longrightarrow> extract_email_body cd m = ([], [''Error extracting email body''])"
  by (simp add: extract_email_body_def strip_empty)

lemma payload_body_log:
  "payload_body cd got = Inr (b, lg) \<Longrightarrow> lg = []"
  by (auto simp: payload_body_def decode_payload_chain split: sum.splits option.splits)

lemma scan_parts_log:
  "scan_parts cd ps = Inr (b, lg) \<Longrightarrow> lg = []"
  by (induction ps) (auto split: sum.splits if_splits dest: payload_body_log)

lemma extract_body_try_log:
  "extract_body_try cd m = Inr (b, lg) \<Longrightarrow> lg = []"
  by (auto simp: extract_body_try_def split: sum.splits bool.splits if_splits
        dest: payload_body_log scan_parts_log)

text \<open>
  Claim C10: for every payload that is not \<open>None\<close> the ladder ends at its UTF-8 step or
  at its Latin-1 step, which cannot fail, so the branch that logs "Body decode failed" and
  empties the body is never taken; and \<open>_extract_email_body\<close> never raises: whatever
  exception a library call raises inside the \<open>try\<close> block, the result is the empty body
  and one line in the log.
\<close>

theorem body_decoding_never_fails:
  "decode_payload cd payload =
     (case utf8_strict cd payload of
        Inr s \<Rightarrow> (s, [])
      | Inl e \<Rightarrow> (map (\<lambda>b. char_of (unat b)) payload, []))
   \<and> ''Body decode failed'' \<notin> set (snd (extract_email_body cd m))
   \<and> (extract_body_try cd m = Inl e \<longrightarrow>
        extract_email_body cd m = ([], [''Error extracting email body'']))"
proof -
  have "''Body decode failed'' \<notin> set (snd (extract_email_body cd m))"
  proof (cases "extract_body_try cd m")
    case (Inl e)
    then show ?thesis by (simp add: extract_email_body_def)
  next
    case (Inr r)
    then obtain b lg where r: "extract_body_try cd m = Inr (b, lg)" by (cases r) auto
    then have "lg = []" by (rule extract_body_try_log)
    with r show ?thesis by (simp add: extract_email_body_def)
  qed
  then show ?thesis
    using decode_payload_chain extract_email_body_caught by blast
qed

theorem body_decoding_never_fails_witness:
  "extract_body_try example_codecs
     \<lparr>msg_is_multipart = Inl (OtherError ''boom''), msg_walk = Inr [], msg_payload = Inr None\<rparr>
     = Inl (OtherError ''boom'')
   \<and> extract_email_body example_codecs
     \<lparr>msg_is_multipart = Inl (OtherError ''boom''), msg_walk = Inr [], msg_payload = Inr None\<rparr>
     = ([], [''Error extracting email body''])
   \<and> decode_payload example_codecs [0xE9] = ([CHR 0xE9], [])"
proof -
  let ?m = "\<lparr>msg_is_multipart = Inl (OtherError ''boom''), msg_walk = Inr [],
             msg_payload = Inr None\<rparr>"
  have h: "extract_body_try example_codecs ?m = Inl (OtherError ''boom'')"
    by (simp add: extract_body_try_def)
  have u: "utf8_strict example_codecs [0xE9] = Inl UnicodeDecodeError"
    by (simp add: example_codecs_def ascii_decode_def)
  have c: "map (\<lambda>b. char_of (unat b)) [0xE9 :: byte] = [CHR 0xE9]"
    by code_simp
  from body_decoding_never_fails [of example_codecs "[0xE9]" ?m "OtherError ''boom''"] h u c
  show ?thesis by simp
qed

section \<open>Header decoding: the claim\<close>

lemma decode_segments_good:
  "\<forall>seg\<in>set segs. \<exists>s. decode_segment cd seg = Inr s \<Longrightarrow>
   decode_segments cd acc segs = Inr (acc @ concat (map (\<lambda>seg. projr (decode_segment cd seg)) segs))"
  by (induction segs arbitrary: acc) auto

lemma decode_segments_bad:
  "\<exists>seg\<in>set segs. \<exists>e. decode_segment cd seg = Inl e \<Longrightarrow>
   \<exists>e. decode_segments cd acc segs = Inl e"
  by (induction segs arbitrary: acc) (auto split: sum.splits)

lemma decode_email_segments_good:
  "\<forall>seg\<in>set segs. \<exists>s. decode_email_segment cd seg = Inr s \<Longrightarrow>
   decode_email_segments cd segs = Inr (map (\<lambda>seg. projr (decode_email_segment cd seg)) segs)"
  by (induction segs) auto

lemma decode_email_segments_bad:
  "\<exists>seg\<in>set segs. \<exists>e. decode_email_segment cd seg = Inl e \<Longrightarrow>
   \<exists>e. decode_email_segments cd segs = Inl e"
proof (induction segs)
  case Nil
  then show ?case by simp
next
  case (Cons seg segs)
  show ?case
  proof (cases "decode_email_segment cd seg")
    case (Inl e)
    then show ?thesis by simp
  next
    case (Inr s)
    with Cons.prems have "\<exists>seg\<in>set segs. \<exists>e. decode_email_segment cd seg = Inl e"
      by auto
    then obtain e where "decode_email_segments cd segs = Inl e"
      using Cons.IH by blast
    with Inr show ?thesis by simp
  qed
qed

lemma decode_header_py_good:
  assumes "h \<noteq> []" "parse h = Inr segs" "\<forall>seg\<in>set segs. \<exists>s. decode_segment cd seg = Inr s"
  shows "decode_header_py cd parse (Some h) = concat (map (\<lambda>seg. projr (decode_segment cd seg)) segs)"
  using assms decode_segments_good [of segs cd "[]"] by (simp add: decode_header_py_def)

lemma decode_header_py_bad:
  assumes "parse h = Inr segs" "\<exists>seg\<in>set segs. \<exists>e. decode_segment cd seg = Inl e"
  shows "decode_header_py cd parse (Some h) = h"
proof -
  from assms(2) obtain e where "decode_segments cd [] segs = Inl e"
    using decode_segments_bad by blast
  with assms(1) show ?thesis by (simp add: decode_header_py_def)
qed

lemma decode_email_header_good:
  assumes "parse h = Inr segs" "\<forall>seg\<in>set segs. \<exists>s. decode_email_segment cd seg = Inr s"
  shows "decode_email_header cd parse (Some h)
         = join_space (map (\<lambda>seg. projr (decode_email_segment cd seg)) segs)"
  using assms decode_email_segments_good [of segs cd] by (simp add: decode_email_header_def)

lemma decode_email_header_bad:
  assumes "parse h = Inr segs" "\<exists>seg\<in>set segs. \<exists>e. decode_email_segment cd seg = Inl e"
  shows "decode_email_header cd parse (Some h) = []"
proof -
  from assms(2) obtain e where "decode_email_segments cd segs = Inl e"
    using decode_email_segments_bad by blast
  with assms(1) show ?thesis by (simp add: decode_email_header_def)
qed

lemma decode_header_parse_error:
  "parse h = Inl e \<Longrightarrow> decode_header_py cd parse (Some h) = h \<and> decode_email_header cd parse (Some h) = []"
  by (simp add: decode_header_py_def decode_email_header_def)


text \<open>
  Claim C8, as stated: when the declared charset is wrong the decoder falls back to a
  permissive decode. It does not: a header whose only encoded word declares us-ascii and
  carries the byte 0xE9, or declares a charset Python does not know, makes
  \<open>part.decode(encoding)\<close> raise; \<open>_decode_header\<close> then returns the raw header, still
  encoded, and \<open>_decode_email_header\<close> returns the empty string.
\<close>

theorem header_decoding_counterexample:
  "decode_header_py example_codecs (one_word_parser [0xE9] ''us-ascii'') (Some ''=?us-ascii?q?=E9?='')
     = ''=?us-ascii?q?=E9?=''
   \<and> decode_email_header example_codecs (one_word_parser [0xE9] ''us-ascii'')
       (Some ''=?us-ascii?q?=E9?='') = []
   \<and> decode_header_py example_codecs (one_word_parser [0x48, 0x69] ''x-unknown'') (Some ''=?x-unknown?q?Hi?='')
     = ''=?x-unknown?q?Hi?=''"
  by code_simp

text \<open>
  Claim C8, amended: header decoding never raises and never returns \<open>None\<close> (both
  functions return a text on every input), and a missing header yields the empty string.
  When every segment decodes under its declared charset (in \<open>_decode_header\<close> a bytes
  segment without charset is decoded as UTF-8 with undecodable bytes dropped; in
  \<open>_decode_email_header\<close> it is decoded as strict UTF-8), the result is the concatenation
  of the decoded segments (joined by single spaces in \<open>_decode_email_header\<close>). When a
  segment does not decode under its declared charset, or the header cannot be parsed,
  there is no permissive fallback: \<open>_decode_header\<close> returns the raw header unchanged and
  \<open>_decode_email_header\<close> returns the empty string.
\<close>

theorem header_decoding_no_fallback:
  "decode_header_py cd parse None = []
   \<and> decode_email_header cd parse None = []
   \<and> (h \<noteq> [] \<and> parse h = Inr segs \<and> (\<forall>seg\<in>set segs. \<exists>s. decode_segment cd seg = Inr s) \<longrightarrow>
        decode_header_py cd parse (Some h)
          = concat (map (\<lambda>seg. projr (decode_segment cd seg)) segs))
   \<and> (parse h = Inr segs \<and> (\<exists>seg\<in>set segs. \<exists>e. decode_segment cd seg = Inl e) \<longrightarrow>
        decode_header_py cd parse (Some h) = h)
   \<and> (parse h = Inr segs \<and> (\<forall>seg\<in>set segs. \<exists>s. decode_email_segment cd seg = Inr s) \<longrightarrow>
        decode_email_header cd parse (Some h)
          = join_space (map (\<lambda>seg. projr (decode_email_segment cd seg)) segs))
   \<and> (parse h = Inr segs \<and> (\<exists>seg\<in>set segs. \<exists>e. decode_email_segment cd seg = Inl e) \<longrightarrow>
        decode_email_header cd parse (Some h) = [])
   \<and> (parse h = Inl e \<longrightarrow>
        decode_header_py cd parse (Some h) = h \<and> decode_email_header cd parse (Some h) = [])"
proof -
  have a: "decode_header_py cd parse None = []"
    by (simp add: decode_header_py_def)
  have b: "decode_email_header cd parse None = []"
    by (simp add: decode_email_header_def)
  have c: "h \<noteq> [] \<and> parse h = Inr segs \<and> (\<forall>seg\<in>set segs. \<exists>s. decode_segment cd seg = Inr s) \<longrightarrow>
        decode_header_py cd parse (Some h)
          = concat (map (\<lambda>seg. projr (decode_segment cd seg)) segs)"
    using decode_header_py_good by blast
  have d: "parse h = Inr segs \<and> (\<exists>seg\<in>set segs. \<exists>e. decode_segment cd seg = Inl e) \<longrightarrow>
        decode_header_py cd parse (Some h) = h"
    using decode_header_py_bad by blast
  have e: "parse h = Inr segs \<and> (\<forall>seg\<in>set segs. \<exists>s. decode_email_segment cd seg = Inr s) \<longrightarrow>
        decode_email_header cd parse (Some h)
          = join_space (map (\<lambda>seg. projr (decode_email_segment cd seg)) segs)"
    using decode_email_header_good by blast
  have f: "parse h = Inr segs \<and> (\<exists>seg\<in>set segs. \<exists>e. decode_email_segment cd seg = Inl e) \<longrightarrow>
        decode_email_header cd parse (Some h) = []"
    using decode_email_header_bad by blast
  have g: "parse h = Inl e \<longrightarrow>
        decode_header_py cd parse (Some h) = h \<and> decode_email_header cd parse (Some h) = []"
    using decode_header_parse_error by blast
  from a b c d e f g show ?thesis by (intro conjI)
qed

theorem header_decoding_no_fallback_witness:
  "decode_header_py example_codecs (one_word_parser [0x48, 0x69] ''us-ascii'')
     (Some ''=?us-ascii?q?Hi?='') = ''Hi''
   \<and> decode_email_header example_codecs (one_word_parser [0x48, 0x69] ''us-ascii'')
     (Some ''=?us-ascii?q?Hi?='') = ''Hi''
   \<and> decode_header_py example_codecs (one_word_parser [0xE9] ''us-ascii'')
     (Some ''=?us-ascii?q?=E9?='') = ''=?us-ascii?q?=E9?=''
   \<and> decode_email_header example_codecs (one_word_parser [0xE9] ''us-ascii'')
     (Some ''=?us-ascii?q?=E9?='') = []
   \<and> decode_header_py example_codecs (\<lambda>h. Inl (OtherError ''parse'')) (Some ''x'') = ''x''
   \<and> decode_email_header example_codecs (\<lambda>h. Inl (OtherError ''parse'')) (Some ''x'') = []"
proof -
  let ?good = "(SegBytes [0x48, 0x69], Some ''us-ascii'')"
  let ?bad = "(SegBytes [0xE9], Some ''us-ascii'')"
  have g1: "decode_segment example_codecs ?good = Inr ''Hi''" by code_simp
  have g2: "decode_email_segment example_codecs ?good = Inr ''Hi''" by code_simp
  have b1: "decode_segment example_codecs ?bad = Inl UnicodeDecodeError" by code_simp
  have b2: "decode_email_segment example_codecs ?bad = Inl UnicodeDecodeError" by code_simp
  have pg: "one_word_parser [0x48, 0x69] ''us-ascii'' ''=?us-ascii?q?Hi?='' = Inr [?good]"
    by (simp add: one_word_parser_def)
  have pb: "one_word_parser [0xE9] ''us-ascii'' ''=?us-ascii?q?=E9?='' = Inr [?bad]"
    by (simp add: one_word_parser_def)
  have ne: "''=?us-ascii?q?Hi?='' \<noteq> []" by simp
  note good = header_decoding_no_fallback
    [of example_codecs "one_word_parser [0x48, 0x69] ''us-ascii''" "''=?us-ascii?q?Hi?=''"
        "[?good]"]
  note bad = header_decoding_no_fallback
    [of example_codecs "one_word_parser [0xE9] ''us-ascii''" "''=?us-ascii?q?=E9?=''" "[?bad]"]
  note perr = header_decoding_no_fallback
    [of example_codecs "\<lambda>h. Inl (OtherError ''parse'')" "''x''" "[]" "OtherError ''parse''"]
  have 1: "decode_header_py example_codecs (one_word_parser [0x48, 0x69] ''us-ascii'')
     (Some ''=?us-ascii?q?Hi?='') = ''Hi''"
    using good pg g1 ne by simp
  have 2: "decode_email_header example_codecs (one_word_parser [0x48, 0x69] ''us-ascii'')
     (Some ''=?us-ascii?q?Hi?='') = ''Hi''"
    using good pg g2 by simp
  have 3: "decode_header_py example_codecs (one_word_parser [0xE9] ''us-ascii'')
     (Some ''=?us-ascii?q?=E9?='') = ''=?us-ascii?q?=E9?=''"
    using bad pb b1 by simp
  have 4: "decode_email_header example_codecs (one_word_parser [0xE9] ''us-ascii'')
     (Some ''=?us-ascii?q?=E9?='') = []"
    using bad pb b2 by simp
  have 5: "decode_header_py example_codecs (\<lambda>h. Inl (OtherError ''parse'')) (Some ''x'') = ''x''
     \<and> decode_email_header example_codecs (\<lambda>h. Inl (OtherError ''parse'')) (Some ''x'') = []"
    using perr by simp
  from 1 2 3 4 5 show ?thesis by simp
qed

section \<open>The emails table and one turn of the loop\<close>

lemma md5_digest_nonempty: "md5_digest m \<noteq> []"
proof -
  obtain a b c d where e:
    "fold (\<lambda>blk st. md5_block st blk) (blocks64 (md5_pad m))
       (0x67452301, 0xefcdab89, 0x98badcfe, 0x10325476) = (a, b, c, d)"
    by (rule prod_cases4)
  show ?thesis
    unfolding md5_digest_def e by (simp add: word_le_bytes_def)
qed

lemma md5_hexdigest_nonempty: "md5_hexdigest s \<noteq> []"
proof -
  obtain b bs where "md5_digest (encode_utf8 s) = b # bs"
    using md5_digest_nonempty by (cases "md5_digest (encode_utf8 s)") auto
  then show ?thesis by (simp add: md5_hexdigest_def hex_byte_def)
qed

lemma generate_email_hash_truthy: "truthy (Some (generate_email_hash e))"
  by (simp add: truthy_def generate_email_hash_def md5_hexdigest_nonempty)

lemma upsert_ids:
  "map row_id (upsert new rows)
   = (if row_id new \<in> set (map row_id rows) then map row_id rows else map row_id rows @ [row_id new])"
  by (auto simp: upsert_def on_duplicate_key_update_def)

lemma upsert_length_existing:
  "row_id new \<in> set (map row_id rows) \<Longrightarrow> length (upsert new rows) = length rows"
  by (simp add: upsert_def)

lemma find_row_id_in:
  "find P rows = Some r \<Longrightarrow> row_id r \<in> set (map row_id rows)"
  by (auto simp: find_Some_iff)

lemma email_exists_by_message_id:
  "truthy mid \<Longrightarrow>
   fst (email_exists d False mid h)
   = map_option row_id (find (\<lambda>r. row_message_id r = or_empty mid) (emails d))"
  by (simp add: email_exists_def)

lemma email_exists_by_hash:
  "\<not> truthy mid \<Longrightarrow> truthy h \<Longrightarrow>
   fst (email_exists d False mid h)
   = map_option row_id (find (\<lambda>r. row_email_hash r = or_empty h) (emails d))"
  by (simp add: email_exists_def)


lemma categorized_fields:
  "eid (categorized e) = eid e" "message_id (categorized e) = message_id e"
  "email_hash (categorized e) = Some (generate_email_hash e)"
  "account_email (categorized e) = account_email e"
  by (simp_all add: categorized_def Let_def)

lemma process_candidate_plain:
  "process_candidate st (no_faults, Some e)
   = \<lparr>db = fst (save_email (db st) False (resolved (db st) e)),
      new_emails = (if truthy (existing_id (db st) e) then new_emails st
                    else new_emails st @ [resolved (db st) e]),
      logged = logged st @ snd (email_exists (db st) False (message_id e)
                                  (Some (generate_email_hash e)))
               @ snd (snd (save_email (db st) False (resolved (db st) e)))
               @ [if truthy (existing_id (db st) e) then ''Email updated''
                  else ''Email fetched and saved'']\<rparr>"
  by (simp add: process_candidate_def no_faults_def resolved_def existing_id_def
        categorized_def Let_def)

lemma upsert_id_present: "row_id new \<in> set (map row_id (upsert new rows))"
  by (simp add: upsert_ids)

lemma existing_id_in_ids:
  assumes "existing_id d e = Some i"
  shows "i \<in> set (map row_id (emails d))"
proof (cases "truthy (message_id e)")
  case True
  with assms obtain r where
    "find (\<lambda>r. row_message_id r = or_empty (message_id e)) (emails d) = Some r" "row_id r = i"
    by (auto simp: existing_id_def email_exists_by_message_id)
  then show ?thesis using find_row_id_in by blast
next
  case False
  with assms obtain r where
    "find (\<lambda>r. row_email_hash r = or_empty (Some (generate_email_hash e))) (emails d) = Some r"
    "row_id r = i"
    by (auto simp: existing_id_def email_exists_by_hash generate_email_hash_truthy)
  then show ?thesis using find_row_id_in by blast
qed

lemma save_email_plain:
  "account_email e \<in> set (accounts d) \<Longrightarrow>
   save_email d False e = (d\<lparr>emails := upsert (row_of_email e) (emails d)\<rparr>, True, [])"
  by (simp add: save_email_def)

lemma resolved_fields:
  "account_email (resolved d e) = account_email e"
  "message_id (resolved d e) = message_id e"
  "email_hash (resolved d e) = Some (generate_email_hash e)"
  "eid (resolved d e) = (if truthy (existing_id d e) then or_empty (existing_id d e) else eid e)"
  by (simp_all add: resolved_def categorized_fields)

lemma row_of_resolved:
  "row_id (row_of_email (resolved d e))
     = clean_id (if truthy (existing_id d e) then or_empty (existing_id d e) else eid e)"
  "row_message_id (row_of_email (resolved d e)) = or_empty (message_id e)"
  "row_email_hash (row_of_email (resolved d e)) = generate_email_hash e"
  by (simp_all add: row_of_email_def resolved_fields or_empty_def)

lemma process_candidate_rows:
  assumes "account_email e \<in> set (accounts (db st))"
  shows "emails (db (process_candidate st (no_faults, Some e)))
         = upsert (row_of_email (resolved (db st) e)) (emails (db st))"
    and "accounts (db (process_candidate st (no_faults, Some e))) = accounts (db st)"
  using assms by (simp_all add: process_candidate_plain save_email_plain resolved_fields)

lemma process_candidate_new:
  "new_emails (process_candidate st (no_faults, Some e))
   = (if truthy (existing_id (db st) e) then new_emails st
      else new_emails st @ [resolved (db st) e])"
  by (simp add: process_candidate_plain)




lemma upsert_cases:
  "upsert new rows
   = (if row_id new \<in> set (map row_id rows)
      then map (\<lambda>old. if row_id old = row_id new then on_duplicate_key_update new old else old)
             rows
      else rows @ [new])"
  by (simp add: upsert_def)

lemma update_ignores_id:
  "on_duplicate_key_update (new\<lparr>row_id := i\<rparr>) old = on_duplicate_key_update new old"
  by (simp add: on_duplicate_key_update_def)

lemma row_of_email_eid: "row_of_email (e\<lparr>eid := i\<rparr>) = (row_of_email e)\<lparr>row_id := clean_id i\<rparr>"
  by (simp add: row_of_email_def)

lemma row_of_categorized:
  "row_id (row_of_email (categorized e)) = clean_id (eid e)"
  "row_account_email (row_of_email (categorized e)) = account_email e"
  "row_subject (row_of_email (categorized e)) = subject e"
  "row_sender (row_of_email (categorized e)) = sender e"
  "row_date (row_of_email (categorized e)) = date e"
  "row_body (row_of_email (categorized e)) = body e"
  "row_is_read (row_of_email (categorized e)) = is_read e"
  "row_email_hash (row_of_email (categorized e)) = generate_email_hash e"
  "row_message_id (row_of_email (categorized e)) = or_empty (message_id e)"
  by (simp_all add: row_of_email_def categorized_def Let_def or_empty_def)

lemma update_keeps:
  "row_id (on_duplicate_key_update new old) = row_id old"
  "row_account_email (on_duplicate_key_update new old) = row_account_email old"
  "row_subject (on_duplicate_key_update new old) = row_subject old"
  "row_sender (on_duplicate_key_update new old) = row_sender old"
  "row_date (on_duplicate_key_update new old) = row_date old"
  "row_body (on_duplicate_key_update new old) = row_body old"
  "row_email_hash (on_duplicate_key_update new old) = row_email_hash new"
  "row_message_id (on_duplicate_key_update new old) = row_message_id new"
  "row_is_read (on_duplicate_key_update new old) = row_is_read new"
  by (simp_all add: on_duplicate_key_update_def)

text \<open>
  The table after a turn in which nothing raises and the account exists, in the three
  cases: the lookup returns an id, the lookup returns nothing and the candidate's own id is
  free, the lookup returns nothing and a row has the candidate's own id.
\<close>

lemma process_candidate_found:
  assumes "existing_id (db st) e = Some i" and "i \<noteq> []"
  shows "new_emails (process_candidate st (no_faults, Some e)) = new_emails st"
    and "account_email e \<in> set (accounts (db st)) \<Longrightarrow>
         clean_id i \<in> set (map row_id (emails (db st))) \<Longrightarrow>
         emails (db (process_candidate st (no_faults, Some e)))
         = map (\<lambda>old. if row_id old = clean_id i
                       then on_duplicate_key_update (row_of_email (categorized e)) old else old)
             (emails (db st))"
proof -
  from assms have t: "truthy (existing_id (db st) e)" by (simp add: truthy_def)
  from assms have o: "or_empty (existing_id (db st) e) = i" by (simp add: or_empty_def)
  show "new_emails (process_candidate st (no_faults, Some e)) = new_emails st"
    using t by (simp add: process_candidate_new)
  assume acc: "account_email e \<in> set (accounts (db st))"
    and mem: "clean_id i \<in> set (map row_id (emails (db st)))"
  have r: "row_of_email (resolved (db st) e) = (row_of_email (categorized e))\<lparr>row_id := clean_id i\<rparr>"
    using t o by (simp add: resolved_def row_of_email_eid)
  show "emails (db (process_candidate st (no_faults, Some e)))
         = map (\<lambda>old. if row_id old = clean_id i
                       then on_duplicate_key_update (row_of_email (categorized e)) old else old)
             (emails (db st))"
    unfolding process_candidate_rows(1)[OF acc] r upsert_cases using mem
    by (simp add: update_ignores_id)
qed

lemma process_candidate_not_found:
  assumes "existing_id (db st) e = None" and "account_email e \<in> set (accounts (db st))"
  shows "new_emails (process_candidate st (no_faults, Some e)) = new_emails st @ [categorized e]"
    and "emails (db (process_candidate st (no_faults, Some e)))
         = (if clean_id (eid e) \<in> set (map row_id (emails (db st)))
            then map (\<lambda>old. if row_id old = clean_id (eid e)
                             then on_duplicate_key_update (row_of_email (categorized e)) old
                             else old)
                   (emails (db st))
            else emails (db st) @ [row_of_email (categorized e)])"
proof -
  from assms(1) have t: "\<not> truthy (existing_id (db st) e)" by (simp add: truthy_def)
  then have r: "resolved (db st) e = categorized e" by (simp add: resolved_def)
  show "new_emails (process_candidate st (no_faults, Some e)) = new_emails st @ [categorized e]"
    using t r by (simp add: process_candidate_new)
  show "emails (db (process_candidate st (no_faults, Some e)))
         = (if clean_id (eid e) \<in> set (map row_id (emails (db st)))
            then map (\<lambda>old. if row_id old = clean_id (eid e)
                             then on_duplicate_key_update (row_of_email (categorized e)) old
                             else old)
                   (emails (db st))
            else emails (db st) @ [row_of_email (categorized e)])"
    unfolding process_candidate_rows(1)[OF assms(2)] r upsert_cases
    by (simp add: row_of_categorized)
qed

lemma existing_id_no_message_id:
  "message_id e = None \<Longrightarrow>
   existing_id d e
   = map_option row_id (find (\<lambda>r. row_email_hash r = generate_email_hash e) (emails d))"
  using generate_email_hash_truthy[of e]
  by (simp add: existing_id_def email_exists_def truthy_def or_empty_def)

lemma existing_id_message_id:
  "message_id e = Some m \<Longrightarrow> m \<noteq> [] \<Longrightarrow>
   existing_id d e = map_option row_id (find (\<lambda>r. row_message_id r = m) (emails d))"
  by (simp add: existing_id_def email_exists_def truthy_def or_empty_def)

lemma candidate_fields:
  "eid (candidate i s m) = i" "message_id (candidate i s m) = m"
  "account_email (candidate i s m) = ''me@example.com''" "subject (candidate i s m) = s"
  "sender (candidate i s m) = ''alice@example.org''"
  "date (candidate i s m) = ''2024-01-01 10:00:00''"
  by (simp_all add: candidate_def)

section \<open>Refinement: the loop on the key columns\<close>

lemma sequence_number_clean:
  assumes "sequence_number s"
  shows "s \<noteq> []" and "clean_id s = s"
proof -
  from assms show ne: "s \<noteq> []" by (simp add: sequence_number_def)
  then obtain c t where s: "s = c # t" by (cases s) auto
  with assms have "c \<in> set ''0123456789''" by (simp add: sequence_number_def)
  then have "c \<noteq> CHR ''b''" by auto
  with s show "clean_id s = s" by (simp add: clean_id_def)
qed

lemma find_map_keys:
  "find P (map f xs) = map_option f (find (\<lambda>x. P (f x)) xs)"
  by (induction xs) auto

lemma truthy_or_empty: "truthy x \<longleftrightarrow> or_empty x \<noteq> []"
  by (cases x) (simp_all add: truthy_def or_empty_def)

lemma existing_id_keys:
  "existing_id d e = key_lookup (map row_keys (emails d)) (candidate_keys e)"
proof (cases "truthy (message_id e)")
  case True
  then have m: "or_empty (message_id e) \<noteq> []" by (simp add: truthy_or_empty)
  show ?thesis
    using True m
    by (simp add: existing_id_def email_exists_by_message_id key_lookup_def candidate_keys_def
          find_map_keys row_keys_def option.map_comp comp_def)
next
  case False
  then have m: "or_empty (message_id e) = []" by (simp add: truthy_or_empty)
  show ?thesis
    using False m
    by (simp add: existing_id_def email_exists_by_hash generate_email_hash_truthy
          key_lookup_def candidate_keys_def find_map_keys row_keys_def option.map_comp
          comp_def or_empty_def)
qed

lemma row_keys_update:
  "row_id old = row_id new \<Longrightarrow> row_keys (on_duplicate_key_update new old) = row_keys new"
  by (simp add: row_keys_def on_duplicate_key_update_def)

lemma upsert_keys:
  "map row_keys (upsert new rows) = key_upsert (row_keys new) (map row_keys rows)"
proof -
  have ids: "map key_id (map row_keys rows) = map row_id rows"
    by (simp add: row_keys_def comp_def)
  have kid: "key_id (row_keys new) = row_id new" by (simp add: row_keys_def)
  show ?thesis
  proof (cases "row_id new \<in> set (map row_id rows)")
    case True
    have "map row_keys (map (\<lambda>old. if row_id old = row_id new
                                    then on_duplicate_key_update new old else old) rows)
          = map (\<lambda>k. if key_id k = key_id (row_keys new) then row_keys new else k)
              (map row_keys rows)"
      by (induction rows) (auto simp: row_keys_update kid, simp_all add: row_keys_def)
    with True show ?thesis
      by (simp only: upsert_def key_upsert_def ids kid if_True)
  next
    case False
    then have n: "key_id (row_keys new) \<notin> set (map key_id (map row_keys rows))"
      unfolding ids kid .
    have "map row_keys (upsert new rows) = map row_keys rows @ [row_keys new]"
      using False by (simp add: upsert_def)
    moreover have "key_upsert (row_keys new) (map row_keys rows)
                   = map row_keys rows @ [row_keys new]"
      using n unfolding key_upsert_def by (simp only: if_False)
    ultimately show ?thesis by simp
  qed
qed

lemma row_keys_resolved:
  "row_keys (row_of_email (resolved d e))
   = (candidate_keys e)\<lparr>key_id :=
        clean_id (if truthy (existing_id d e) then or_empty (existing_id d e) else eid e)\<rparr>"
  by (simp add: row_keys_def row_of_resolved candidate_keys_def)

lemma process_candidate_keys:
  assumes "account_email e \<in> set (accounts (db st))"
  shows "map row_keys (emails (db (process_candidate st (no_faults, Some e))))
         = key_step (map row_keys (emails (db st))) (candidate_keys e)"
proof -
  have "key_id (candidate_keys e) = eid e" by (simp add: candidate_keys_def)
  then show ?thesis
    using assms
    by (simp add: process_candidate_rows upsert_keys row_keys_resolved key_step_def
          existing_id_keys)
qed


section \<open>Ingesting a mailbox into an empty table: the key columns\<close>

lemma key_upsert_ids:
  "map key_id (key_upsert new ks)
   = (if key_id new \<in> set (map key_id ks) then map key_id ks else map key_id ks @ [key_id new])"
  by (induction ks) (auto simp: key_upsert_def)

lemma key_upsert_new: "new \<in> set (key_upsert new ks)"
  by (auto simp: key_upsert_def)

lemma key_upsert_cases:
  "k \<in> set (key_upsert new ks) \<Longrightarrow> k = new \<or> (k \<in> set ks \<and> key_id k \<noteq> key_id new)"
proof (cases "key_id new \<in> set (map key_id ks)")
  case True
  assume "k \<in> set (key_upsert new ks)"
  with True show ?thesis by (auto simp: key_upsert_def split: if_splits)
next
  case False
  assume "k \<in> set (key_upsert new ks)"
  with False have "k = new \<or> k \<in> set ks" by (auto simp: key_upsert_def)
  moreover have "k \<in> set ks \<Longrightarrow> key_id k \<noteq> key_id new" using False by (auto simp: image_iff)
  ultimately show ?thesis by blast
qed

lemma key_upsert_keeps:
  "k \<in> set ks \<Longrightarrow> key_id k \<noteq> key_id new \<Longrightarrow> k \<in> set (key_upsert new ks)"
  by (auto simp: key_upsert_def)

lemma key_lookup_Some:
  assumes "key_lookup ks c = Some i"
  shows "\<exists>k\<in>set ks. key_id k = i
           \<and> (if key_mid c \<noteq> [] then key_mid k = key_mid c else key_hash k = key_hash c)"
proof (cases "key_mid c \<noteq> []")
  case True
  with assms obtain k where "find (\<lambda>k. key_mid k = key_mid c) ks = Some k" "key_id k = i"
    by (auto simp: key_lookup_def)
  with True show ?thesis by (auto simp: find_Some_iff)
next
  case False
  with assms obtain k where "find (\<lambda>k. key_hash k = key_hash c) ks = Some k" "key_id k = i"
    by (auto simp: key_lookup_def)
  with False show ?thesis by (auto simp: find_Some_iff)
qed

lemma key_lookup_found:
  assumes "k \<in> set ks"
    and "if key_mid c \<noteq> [] then key_mid k = key_mid c else key_hash k = key_hash c"
  shows "\<exists>i. key_lookup ks c = Some i"
proof (cases "key_mid c \<noteq> []")
  case True
  with assms have "find (\<lambda>k. key_mid k = key_mid c) ks \<noteq> None"
    by (auto simp: find_None_iff)
  with True show ?thesis by (auto simp: key_lookup_def)
next
  case False
  with assms have "find (\<lambda>k. key_hash k = key_hash c) ks \<noteq> None"
    by (auto simp: find_None_iff)
  with False show ?thesis by (auto simp: key_lookup_def)
qed

text \<open>The owner of a row id among the candidates of the mailbox is unique.\<close>

lemma mailbox_owner:
  assumes "mailbox_keys cs" "c \<in> set cs" "d \<in> set cs" "key_id c = key_id d"
  shows "c = d"
  using assms by (auto simp: mailbox_keys_def distinct_map inj_on_def)

lemma mailbox_hash:
  assumes "mailbox_keys cs" "c \<in> set cs" "d \<in> set cs" "key_hash c = key_hash d"
  shows "c = d"
  using assms by (auto simp: mailbox_keys_def)

lemma key_inv_row_id:
  assumes "key_inv cs ks" "mailbox_keys cs" "k \<in> set ks"
  shows "sequence_number (key_id k)"
proof -
  from assms(1,3) obtain c where "c \<in> set cs" "key_id c = key_id k"
    by (auto simp: key_inv_def)
  with assms(2) show ?thesis by (auto simp: mailbox_keys_def)
qed

text \<open>
  The row a turn of the loop writes: the candidate's key columns under an id that is either
  the candidate's own or that of a row answering its lookup key; without message identifier
  it is the candidate's own in both cases.
\<close>

lemma key_step_row:
  assumes inv: "key_inv cs ks" and mb: "mailbox_keys cs" and c: "c \<in> set cs"
  obtains i where "key_step ks c = key_upsert (c\<lparr>key_id := i\<rparr>) ks"
    and "i = key_id c \<or> (\<exists>k\<in>set ks. key_id k = i \<and> key_mid c \<noteq> [] \<and> key_mid k = key_mid c)"
    and "truthy (key_lookup ks c) \<Longrightarrow> i \<in> set (map key_id ks)"
proof (cases "truthy (key_lookup ks c)")
  case False
  from mb c have "sequence_number (key_id c)" by (auto simp: mailbox_keys_def)
  then have "clean_id (key_id c) = key_id c" by (rule sequence_number_clean)
  with False have "key_step ks c = key_upsert (c\<lparr>key_id := key_id c\<rparr>) ks"
    by (simp add: key_step_def)
  with False show ?thesis by (intro that[of "key_id c"]) auto
next
  case True
  then obtain i where l: "key_lookup ks c = Some i" by (cases "key_lookup ks c") (auto simp: truthy_def)
  then obtain k where k: "k \<in> set ks" "key_id k = i"
    and m: "if key_mid c \<noteq> [] then key_mid k = key_mid c else key_hash k = key_hash c"
    using key_lookup_Some by blast
  from inv mb k have "sequence_number i" using key_inv_row_id by blast
  then have cl: "clean_id i = i" by (rule sequence_number_clean)
  from True l cl have st: "key_step ks c = key_upsert (c\<lparr>key_id := i\<rparr>) ks"
    by (simp add: key_step_def or_empty_def)
  have mem: "i \<in> set (map key_id ks)" using k by auto
  show ?thesis
  proof (cases "key_mid c \<noteq> []")
    case True
    with m k have "\<exists>k\<in>set ks. key_id k = i \<and> key_mid c \<noteq> [] \<and> key_mid k = key_mid c" by auto
    with st mem show ?thesis by (intro that[of i]) auto
  next
    case False
    with m have h: "key_hash k = key_hash c" by simp
    from inv k(1) obtain c' where c': "c' \<in> set cs" "key_hash c' = key_hash k"
      "key_mid c' = [] \<longrightarrow> key_id c' = key_id k"
      unfolding key_inv_def by blast
    from mb c c' h have "c' = c" using mailbox_hash by (metis)
    with c' False k have "i = key_id c" by auto
    with st mem show ?thesis by (intro that[of i]) auto
  qed
qed

lemma key_inv_step:
  assumes inv: "key_inv cs ks" and mb: "mailbox_keys cs" and c: "c \<in> set cs"
  shows "key_inv cs (key_step ks c)"
proof -
  obtain i where st: "key_step ks c = key_upsert (c\<lparr>key_id := i\<rparr>) ks"
    and i: "i = key_id c \<or> (\<exists>k\<in>set ks. key_id k = i \<and> key_mid c \<noteq> [] \<and> key_mid k = key_mid c)"
    using key_step_row[OF inv mb c] by metis
  let ?new = "c\<lparr>key_id := i\<rparr>"
  have own: "key_mid c = [] \<Longrightarrow> i = key_id c" using i by auto
  have d: "distinct (map key_id (key_upsert ?new ks))"
    using inv by (auto simp: key_upsert_ids key_inv_def)
  have n2: "\<exists>c'\<in>set cs. key_id c' = key_id ?new \<and> key_mid c' = key_mid ?new"
  proof (cases "i = key_id c")
    case True
    with c show ?thesis by auto
  next
    case False
    with i obtain k where k: "k \<in> set ks" "key_id k = i" "key_mid k = key_mid c" by auto
    with inv obtain c' where "c' \<in> set cs" "key_id c' = key_id k" "key_mid c' = key_mid k"
      unfolding key_inv_def by blast
    with k show ?thesis by auto
  qed
  have n3: "\<exists>c'\<in>set cs. key_hash c' = key_hash ?new
              \<and> (key_mid c' = [] \<longrightarrow> key_id c' = key_id ?new)"
    using c own by auto
  have n4: "key_mid ?new = [] \<longrightarrow> (\<exists>c'\<in>set cs. key_id c' = key_id ?new \<and> key_hash c' = key_hash ?new)"
    using c own by auto
  have old: "\<And>k. k \<in> set (key_upsert ?new ks) \<Longrightarrow> k = ?new \<or> k \<in> set ks"
    using key_upsert_cases by blast
  have p2: "\<forall>k\<in>set (key_upsert ?new ks). \<exists>c\<in>set cs. key_id c = key_id k \<and> key_mid c = key_mid k"
  proof
    fix k assume "k \<in> set (key_upsert ?new ks)"
    then have "k = ?new \<or> k \<in> set ks" by (rule old)
    then show "\<exists>c\<in>set cs. key_id c = key_id k \<and> key_mid c = key_mid k"
    proof
      assume "k = ?new" with n2 show ?thesis by simp
    next
      assume "k \<in> set ks" with inv show ?thesis unfolding key_inv_def by blast
    qed
  qed
  have p3: "\<forall>k\<in>set (key_upsert ?new ks). \<exists>c\<in>set cs. key_hash c = key_hash k
                                  \<and> (key_mid c = [] \<longrightarrow> key_id c = key_id k)"
  proof
    fix k assume "k \<in> set (key_upsert ?new ks)"
    then have "k = ?new \<or> k \<in> set ks" by (rule old)
    then show "\<exists>c\<in>set cs. key_hash c = key_hash k \<and> (key_mid c = [] \<longrightarrow> key_id c = key_id k)"
    proof
      assume "k = ?new" with n3 show ?thesis by simp
    next
      assume "k \<in> set ks" with inv show ?thesis unfolding key_inv_def by blast
    qed
  qed
  have p4: "\<forall>k\<in>set (key_upsert ?new ks). key_mid k = [] \<longrightarrow>
             (\<exists>c\<in>set cs. key_id c = key_id k \<and> key_hash c = key_hash k)"
  proof
    fix k assume "k \<in> set (key_upsert ?new ks)"
    then have "k = ?new \<or> k \<in> set ks" by (rule old)
    then show "key_mid k = [] \<longrightarrow> (\<exists>c\<in>set cs. key_id c = key_id k \<and> key_hash c = key_hash k)"
    proof
      assume "k = ?new" with n4 show ?thesis by simp
    next
      assume "k \<in> set ks" with inv show ?thesis unfolding key_inv_def by blast
    qed
  qed
  from d p2 p3 p4 show ?thesis unfolding st key_inv_def by (intro conjI)
qed

lemma key_step_ids_grow:
  assumes inv: "key_inv cs ks" and mb: "mailbox_keys cs" and c: "c \<in> set cs"
  shows "set (map key_id ks) \<subseteq> set (map key_id (key_step ks c))"
proof -
  obtain i where st: "key_step ks c = key_upsert (c\<lparr>key_id := i\<rparr>) ks"
    using key_step_row[OF inv mb c] by metis
  show ?thesis unfolding st by (auto simp: key_upsert_ids)
qed

lemma covered_step_self:
  assumes inv: "key_inv cs ks" and mb: "mailbox_keys cs" and c: "c \<in> set cs"
  shows "covered (key_step ks c) c"
proof -
  obtain i where st: "key_step ks c = key_upsert (c\<lparr>key_id := i\<rparr>) ks"
    and i: "i = key_id c \<or> (\<exists>k\<in>set ks. key_id k = i \<and> key_mid c \<noteq> [] \<and> key_mid k = key_mid c)"
    using key_step_row[OF inv mb c] by metis
  let ?new = "c\<lparr>key_id := i\<rparr>"
  have "?new \<in> set (key_step ks c)" unfolding st by (rule key_upsert_new)
  moreover have "if key_mid c \<noteq> [] then key_mid ?new = key_mid c else key_id ?new = key_id c"
    using i by auto
  ultimately show ?thesis unfolding covered_def by blast
qed

lemma covered_step_other:
  assumes inv: "key_inv cs ks" and mb: "mailbox_keys cs" and c: "c \<in> set cs"
    and d: "d \<in> set cs" and cov: "covered ks d"
  shows "covered (key_step ks c) d"
proof -
  obtain i where st: "key_step ks c = key_upsert (c\<lparr>key_id := i\<rparr>) ks"
    using key_step_row[OF inv mb c] by metis
  let ?new = "c\<lparr>key_id := i\<rparr>"
  have inv': "key_inv cs (key_step ks c)" using inv mb c by (rule key_inv_step)
  from cov obtain k where k: "k \<in> set ks"
    and m: "if key_mid d \<noteq> [] then key_mid k = key_mid d else key_id k = key_id d"
    unfolding covered_def by blast
  show ?thesis
  proof (cases "key_id k = i")
    case False
    then have "k \<in> set (key_step ks c)" unfolding st using k by (simp add: key_upsert_keeps)
    with m show ?thesis unfolding covered_def by blast
  next
    case True
    have new: "?new \<in> set (key_step ks c)" unfolding st by (rule key_upsert_new)
    with inv' obtain c1 where c1: "c1 \<in> set cs" "key_id c1 = i" "key_mid c1 = key_mid c"
      unfolding key_inv_def by fastforce
    from inv k obtain c2 where c2: "c2 \<in> set cs" "key_id c2 = key_id k" "key_mid c2 = key_mid k"
      unfolding key_inv_def by blast
    from mb c1 c2 True have "c1 = c2" using mailbox_owner by metis
    with c1 c2 have "key_mid k = key_mid c" by simp
    with m True have "if key_mid d \<noteq> [] then key_mid ?new = key_mid d else key_id ?new = key_id d"
      by auto
    with new show ?thesis unfolding covered_def by blast
  qed
qed

text \<open>
  A covered candidate is found by the lookup, and its turn of the loop rewrites a row
  that is there: the ids of the table are unchanged.
\<close>

lemma covered_lookup:
  assumes inv: "key_inv cs ks" and mb: "mailbox_keys cs" and c: "c \<in> set cs"
    and cov: "covered ks c"
  shows "truthy (key_lookup ks c)"
    and "map key_id (key_step ks c) = map key_id ks"
proof -
  from cov obtain k where k: "k \<in> set ks"
    and m: "if key_mid c \<noteq> [] then key_mid k = key_mid c else key_id k = key_id c"
    unfolding covered_def by blast
  have "if key_mid c \<noteq> [] then key_mid k = key_mid c else key_hash k = key_hash c"
  proof (cases "key_mid c \<noteq> []")
    case True with m show ?thesis by simp
  next
    case False
    with m have id: "key_id k = key_id c" by simp
    from inv k obtain c2 where c2: "c2 \<in> set cs" "key_id c2 = key_id k" "key_mid c2 = key_mid k"
      unfolding key_inv_def by blast
    from mb c c2 id have "c2 = c" using mailbox_owner by metis
    with c2 False have "key_mid k = []" by simp
    with inv k obtain c3 where c3: "c3 \<in> set cs" "key_id c3 = key_id k" "key_hash c3 = key_hash k"
      unfolding key_inv_def by blast
    from mb c c3 id have "c3 = c" using mailbox_owner by metis
    with c3 False show ?thesis by simp
  qed
  with k obtain i where l: "key_lookup ks c = Some i" using key_lookup_found by blast
  then obtain k' where k': "k' \<in> set ks" "key_id k' = i" using key_lookup_Some by blast
  with inv mb have "sequence_number i" using key_inv_row_id by blast
  then have ne: "i \<noteq> []" by (rule sequence_number_clean)
  with l show t: "truthy (key_lookup ks c)" by (simp add: truthy_def)
  obtain j where st: "key_step ks c = key_upsert (c\<lparr>key_id := j\<rparr>) ks"
    and j: "truthy (key_lookup ks c) \<Longrightarrow> j \<in> set (map key_id ks)"
    using key_step_row[OF inv mb c] by metis
  from j t show "map key_id (key_step ks c) = map key_id ks"
    unfolding st by (simp add: key_upsert_ids)
qed

lemma key_inv_empty: "key_inv cs []"
  by (simp add: key_inv_def)

text \<open>
  A whole pass over candidates of the mailbox keeps the invariant, keeps every covered
  candidate covered, and covers the candidates it processes.
\<close>

lemma key_fold:
  assumes "key_inv cs ks" and "mailbox_keys cs" and "set ds \<subseteq> set cs"
  shows "key_inv cs (foldl key_step ks ds)
         \<and> (\<forall>d\<in>set cs. covered ks d \<longrightarrow> covered (foldl key_step ks ds) d)
         \<and> (\<forall>d\<in>set ds. covered (foldl key_step ks ds) d)"
  using assms
proof (induction ds arbitrary: ks)
  case Nil
  then show ?case by simp
next
  case (Cons a ds)
  from Cons.prems have a: "a \<in> set cs" and sub: "set ds \<subseteq> set cs" by auto
  let ?ks = "key_step ks a"
  have inv1: "key_inv cs ?ks" using Cons.prems(1,2) a by (rule key_inv_step)
  have self: "covered ?ks a" using Cons.prems(1,2) a by (rule covered_step_self)
  have other: "\<And>d. d \<in> set cs \<Longrightarrow> covered ks d \<Longrightarrow> covered ?ks d"
    using Cons.prems(1,2) a by (rule covered_step_other)
  from Cons.IH[OF inv1 Cons.prems(2) sub]
  have f1: "key_inv cs (foldl key_step ?ks ds)"
    and f2: "\<And>d. d \<in> set cs \<Longrightarrow> covered ?ks d \<Longrightarrow> covered (foldl key_step ?ks ds) d"
    and f3: "\<And>d. d \<in> set ds \<Longrightarrow> covered (foldl key_step ?ks ds) d"
    by auto
  have g2: "\<forall>d\<in>set cs. covered ks d \<longrightarrow> covered (foldl key_step ks (a # ds)) d"
    using other f2 by simp
  have g3: "\<forall>d\<in>set (a # ds). covered (foldl key_step ks (a # ds)) d"
    using f2[OF a self] f3 by simp
  from f1 g2 g3 show ?case by simp
qed

lemma key_first_pass:
  assumes "mailbox_keys cs"
  shows "key_inv cs (foldl key_step [] cs)"
    and "\<forall>d\<in>set cs. covered (foldl key_step [] cs) d"
  using key_fold[OF key_inv_empty assms subset_refl] by auto


section \<open>A pass of the loop over a healthy session\<close>

lemma email_exists_no_log: "snd (email_exists d False mid h) = []"
  by (simp add: email_exists_def)

lemma process_candidate_logged:
  assumes "account_email e \<in> set (accounts (db st))"
  shows "logged (process_candidate st (no_faults, Some e))
         = logged st @ [if truthy (existing_id (db st) e) then ''Email updated''
                        else ''Email fetched and saved'']"
  using assms
  by (simp add: process_candidate_plain save_email_plain resolved_fields email_exists_no_log)

lemma process_candidate_new_ids:
  "map eid (new_emails (process_candidate st (no_faults, Some e)))
   = (if truthy (key_lookup (map row_keys (emails (db st))) (candidate_keys e))
      then map eid (new_emails st) else map eid (new_emails st) @ [eid e])"
  by (simp add: process_candidate_new existing_id_keys resolved_fields)

lemma row_ids_keys: "map row_id rows = map key_id (map row_keys rows)"
  by (simp add: row_keys_def comp_def)

lemma apply_limit_map: "apply_limit limit (map f xs) = map f (apply_limit limit xs)"
  by (simp add: apply_limit_def drop_map split: option.split)

lemma apply_limit_drop: "\<exists>n. apply_limit limit xs = drop n xs"
proof (cases limit)
  case None
  then have "apply_limit limit xs = drop 0 xs" by (simp add: apply_limit_def)
  then show ?thesis by blast
next
  case (Some k)
  then have "apply_limit limit xs = drop 0 xs \<or> apply_limit limit xs = drop (length xs - nat k) xs
             \<or> apply_limit limit xs = drop (nat (- k)) xs"
    by (simp add: apply_limit_def)
  then show ?thesis by blast
qed

lemma fetch_healthy:
  "fetch_emails_from_account d (healthy_session cs) limit
   = (let st = foldl process_candidate \<lparr>db = d, new_emails = [], logged = []\<rparr>
                 (map (\<lambda>c. (no_faults, Some c)) (apply_limit limit cs))
      in (db st, logged st, Inr (new_emails st)))"
  by (simp add: fetch_emails_from_account_def healthy_session_def apply_limit_map)

lemma fetch_healthy_all:
  "fetch_emails_from_account d (healthy_session cs) None
   = (let st = foldl process_candidate \<lparr>db = d, new_emails = [], logged = []\<rparr>
                 (map (\<lambda>c. (no_faults, Some c)) cs)
      in (db st, logged st, Inr (new_emails st)))"
  by (simp add: fetch_emails_from_account_def healthy_session_def apply_limit_def)

text \<open>The loop on the table is the fold of \<open>key_step\<close> on its key columns.\<close>

lemma pass_keys:
  assumes "\<forall>c\<in>set ds. account_email c \<in> set (accounts (db st))"
  shows "map row_keys (emails (db (foldl process_candidate st
                                      (map (\<lambda>c. (no_faults, Some c)) ds))))
         = foldl key_step (map row_keys (emails (db st))) (map candidate_keys ds)
         \<and> accounts (db (foldl process_candidate st (map (\<lambda>c. (no_faults, Some c)) ds)))
           = accounts (db st)"
  using assms
proof (induction ds arbitrary: st)
  case Nil
  then show ?case by simp
next
  case (Cons a ds)
  let ?st = "process_candidate st (no_faults, Some a)"
  from Cons.prems have a: "account_email a \<in> set (accounts (db st))" by simp
  have acc: "accounts (db ?st) = accounts (db st)" using a by (rule process_candidate_rows)
  have keys: "map row_keys (emails (db ?st))
              = key_step (map row_keys (emails (db st))) (candidate_keys a)"
    using a by (rule process_candidate_keys)
  from Cons.prems acc have "\<forall>c\<in>set ds. account_email c \<in> set (accounts (db ?st))" by simp
  from Cons.IH[OF this] show ?case by (simp add: acc keys)
qed

text \<open>
  A pass over candidates that are all covered: nothing is reported as new, every turn logs
  an update, and the ids of the table do not change.
\<close>

lemma pass_covered:
  assumes mb: "mailbox_keys (map candidate_keys cs)"
    and sub: "set ds \<subseteq> set cs"
    and inv: "key_inv (map candidate_keys cs) (map row_keys (emails (db st)))"
    and cov: "\<forall>c\<in>set cs. covered (map row_keys (emails (db st))) (candidate_keys c)"
    and acc: "\<forall>c\<in>set cs. account_email c \<in> set (accounts (db st))"
  shows "new_emails (foldl process_candidate st (map (\<lambda>c. (no_faults, Some c)) ds))
           = new_emails st
         \<and> logged (foldl process_candidate st (map (\<lambda>c. (no_faults, Some c)) ds))
           = logged st @ replicate (length ds) ''Email updated''
         \<and> map row_id (emails (db (foldl process_candidate st
                                      (map (\<lambda>c. (no_faults, Some c)) ds))))
           = map row_id (emails (db st))"
  using sub inv cov acc
proof (induction ds arbitrary: st)
  case Nil
  then show ?case by simp
next
  case (Cons a ds)
  let ?st = "process_candidate st (no_faults, Some a)"
  let ?ks = "map row_keys (emails (db st))"
  let ?cs = "map candidate_keys cs"
  from Cons.prems(1) have a: "a \<in> set cs" and sub: "set ds \<subseteq> set cs" by auto
  then have ak: "candidate_keys a \<in> set ?cs" by simp
  from Cons.prems(4) a have aa: "account_email a \<in> set (accounts (db st))" by blast
  from Cons.prems(3) a have ca: "covered ?ks (candidate_keys a)" by blast
  have accs: "accounts (db ?st) = accounts (db st)" using aa by (rule process_candidate_rows)
  have keys: "map row_keys (emails (db ?st)) = key_step ?ks (candidate_keys a)"
    using aa by (rule process_candidate_keys)
  have t: "truthy (key_lookup ?ks (candidate_keys a))"
    using Cons.prems(2) mb ak ca by (rule covered_lookup)
  have ids: "map key_id (key_step ?ks (candidate_keys a)) = map key_id ?ks"
    using Cons.prems(2) mb ak ca by (rule covered_lookup)
  have inv1: "key_inv ?cs (map row_keys (emails (db ?st)))"
    unfolding keys using Cons.prems(2) mb ak by (rule key_inv_step)
  have cov1: "\<forall>c\<in>set cs. covered (map row_keys (emails (db ?st))) (candidate_keys c)"
  proof
    fix c assume c: "c \<in> set cs"
    then have ck: "candidate_keys c \<in> set ?cs" by simp
    from Cons.prems(3) c have "covered ?ks (candidate_keys c)" by blast
    with Cons.prems(2) mb ak ck show "covered (map row_keys (emails (db ?st))) (candidate_keys c)"
      unfolding keys by (rule covered_step_other)
  qed
  from Cons.prems(4) accs have acc1: "\<forall>c\<in>set cs. account_email c \<in> set (accounts (db ?st))"
    by simp
  have n: "new_emails ?st = new_emails st"
    using t by (simp add: process_candidate_new existing_id_keys)
  have l: "logged ?st = logged st @ [''Email updated'']"
    using t aa by (simp add: process_candidate_logged existing_id_keys)
  have r: "map row_id (emails (db ?st)) = map row_id (emails (db st))"
    using ids keys by (simp only: row_ids_keys)
  from Cons.IH[OF sub inv1 cov1 acc1] show ?case
    by (simp add: n l r replicate_app_Cons_same)
qed

section \<open>Two candidates with the same content: the claims\<close>

lemma digest_hello_1:
  "md5_hexdigest ''Hello_alice@example.org_2024-01-01 10:00:00_1''
   = ''e2966abbc67c050bda67d03a3cee5250''"
  by code_simp

lemma digest_hello_2:
  "md5_hexdigest ''Hello_alice@example.org_2024-01-01 10:00:00_2''
   = ''1589ccf0cc110cf6e41f132e1f77b4bb''"
  by code_simp

lemma hash_hello_1:
  "generate_email_hash (candidate ''1'' ''Hello'' m) = ''e2966abbc67c050bda67d03a3cee5250''"
  using digest_hello_1 by (simp add: generate_email_hash_def unique_fields_def candidate_def)

lemma hash_hello_2:
  "generate_email_hash (candidate ''2'' ''Hello'' m) = ''1589ccf0cc110cf6e41f132e1f77b4bb''"
  using digest_hello_2 by (simp add: generate_email_hash_def unique_fields_def candidate_def)

lemma candidate_keys_candidate:
  "candidate_keys (candidate i s m)
   = \<lparr>key_id = i, key_mid = or_empty m, key_hash = generate_email_hash (candidate i s m)\<rparr>"
  by (simp add: candidate_keys_def candidate_fields)

text \<open>
  A turn of the loop on a table whose ids are sequence numbers writes under a sequence
  number; a second turn for the same key columns finds the row the first one wrote.
\<close>

lemma key_step_sequence:
  assumes ks: "\<forall>k\<in>set ks. sequence_number (key_id k)" and c: "sequence_number (key_id c)"
  obtains i where "key_step ks c = key_upsert (c\<lparr>key_id := i\<rparr>) ks" and "sequence_number i"
    and "truthy (key_lookup ks c) \<Longrightarrow> i \<in> set (map key_id ks)"
proof (cases "truthy (key_lookup ks c)")
  case False
  from c have "clean_id (key_id c) = key_id c" by (rule sequence_number_clean)
  with False have "key_step ks c = key_upsert (c\<lparr>key_id := key_id c\<rparr>) ks"
    by (simp add: key_step_def)
  with False c show ?thesis by (intro that[of "key_id c"]) auto
next
  case True
  then obtain i where l: "key_lookup ks c = Some i"
    by (cases "key_lookup ks c") (auto simp: truthy_def)
  then obtain k where k: "k \<in> set ks" "key_id k = i" using key_lookup_Some by blast
  with ks have s: "sequence_number i" by blast
  then have "clean_id i = i" by (rule sequence_number_clean)
  with True l have "key_step ks c = key_upsert (c\<lparr>key_id := i\<rparr>) ks"
    by (simp add: key_step_def or_empty_def)
  moreover have "i \<in> set (map key_id ks)" using k by auto
  ultimately show ?thesis using s by (intro that[of i]) auto
qed

lemma key_step_twice:
  assumes ks: "\<forall>k\<in>set ks. sequence_number (key_id k)" and c: "sequence_number (key_id c)"
  shows "truthy (key_lookup (key_step ks c) c)"
    and "map key_id (key_step (key_step ks c) c) = map key_id (key_step ks c)"
proof -
  obtain i where st: "key_step ks c = key_upsert (c\<lparr>key_id := i\<rparr>) ks" and i: "sequence_number i"
    using key_step_sequence[OF ks c] by metis
  let ?new = "c\<lparr>key_id := i\<rparr>"
  let ?ks = "key_step ks c"
  have new: "?new \<in> set ?ks" unfolding st by (rule key_upsert_new)
  have seq: "\<forall>k\<in>set ?ks. sequence_number (key_id k)"
  proof
    fix k assume "k \<in> set ?ks"
    then have "k = ?new \<or> k \<in> set ks" unfolding st using key_upsert_cases by blast
    then show "sequence_number (key_id k)" using i ks by auto
  qed
  have "if key_mid c \<noteq> [] then key_mid ?new = key_mid c else key_hash ?new = key_hash c"
    by simp
  with new obtain j where l: "key_lookup ?ks c = Some j" using key_lookup_found by blast
  then obtain k where "k \<in> set ?ks" "key_id k = j" using key_lookup_Some by blast
  with seq have "sequence_number j" by blast
  then have "j \<noteq> []" by (rule sequence_number_clean)
  with l show t: "truthy (key_lookup ?ks c)" by (simp add: truthy_def)
  obtain m where st2: "key_step ?ks c = key_upsert (c\<lparr>key_id := m\<rparr>) ?ks"
    and m: "truthy (key_lookup ?ks c) \<Longrightarrow> m \<in> set (map key_id ?ks)"
    using key_step_sequence[OF seq c] by metis
  from m t show "map key_id (key_step ?ks c) = map key_id ?ks"
    unfolding st2 by (simp add: key_upsert_ids)
qed

text \<open>
  Claim C3, as stated: two candidates with the same subject, sender, timestamp and account,
  no message identifier, and different sequence numbers have equal content hashes, so that
  ingesting both leaves one stored record. They do not: the sequence number is the last
  field of the hashed string. The messages 1 and 2 of a mailbox, alike in every other field,
  get different hashes; ingested into an empty table they are stored as two rows, and both
  are reported as new.
\<close>

theorem different_sequence_numbers_two_rows:
  "subject (candidate ''1'' ''Hello'' None) = subject (candidate ''2'' ''Hello'' None)
   \<and> sender (candidate ''1'' ''Hello'' None) = sender (candidate ''2'' ''Hello'' None)
   \<and> date (candidate ''1'' ''Hello'' None) = date (candidate ''2'' ''Hello'' None)
   \<and> account_email (candidate ''1'' ''Hello'' None)
       = account_email (candidate ''2'' ''Hello'' None)
   \<and> message_id (candidate ''1'' ''Hello'' None) = None
   \<and> message_id (candidate ''2'' ''Hello'' None) = None
   \<and> generate_email_hash (candidate ''1'' ''Hello'' None)
       \<noteq> generate_email_hash (candidate ''2'' ''Hello'' None)
   \<and> map row_id (emails (fst (first_run (empty_db [''me@example.com''])
         [candidate ''1'' ''Hello'' None, candidate ''2'' ''Hello'' None] None)))
       = [''1'', ''2'']
   \<and> map_sum id (map eid) (snd (snd (first_run (empty_db [''me@example.com''])
         [candidate ''1'' ''Hello'' None, candidate ''2'' ''Hello'' None] None)))
       = Inr [''1'', ''2'']"
proof -
  let ?a = "candidate ''1'' ''Hello'' None"
  let ?b = "candidate ''2'' ''Hello'' None"
  let ?s = "\<lparr>db = empty_db [''me@example.com''], new_emails = [], logged = []\<rparr>"
  let ?sa = "process_candidate ?s (no_faults, Some ?a)"
  let ?sb = "process_candidate ?sa (no_faults, Some ?b)"
  have ne: "generate_email_hash ?a \<noteq> generate_email_hash ?b"
    by (simp add: hash_hello_1 hash_hello_2)
  have ka: "candidate_keys ?a
            = \<lparr>key_id = ''1'', key_mid = [], key_hash = ''e2966abbc67c050bda67d03a3cee5250''\<rparr>"
    by (simp add: candidate_keys_candidate hash_hello_1 or_empty_def)
  have kb: "candidate_keys ?b
            = \<lparr>key_id = ''2'', key_mid = [], key_hash = ''1589ccf0cc110cf6e41f132e1f77b4bb''\<rparr>"
    by (simp add: candidate_keys_candidate hash_hello_2 or_empty_def)
  have k0: "map row_keys (emails (db ?s)) = []" by (simp add: empty_db_def)
  have a0: "account_email ?a \<in> set (accounts (db ?s))"
    by (simp add: candidate_fields empty_db_def)
  have acc: "accounts (db ?sa) = accounts (db ?s)" using a0 by (rule process_candidate_rows)
  have b0: "account_email ?b \<in> set (accounts (db ?sa))"
    unfolding acc by (simp add: candidate_fields empty_db_def)
  have k1: "map row_keys (emails (db ?sa))
            = [\<lparr>key_id = ''1'', key_mid = [], key_hash = ''e2966abbc67c050bda67d03a3cee5250''\<rparr>]"
    unfolding process_candidate_keys[OF a0] k0 ka
    by (simp add: key_step_def key_lookup_def key_upsert_def truthy_def clean_id_def)
  have n1: "map eid (new_emails ?sa) = [''1'']"
    unfolding process_candidate_new_ids k0 ka
    by (simp add: key_lookup_def truthy_def candidate_fields)
  have k2: "map row_keys (emails (db ?sb))
            = [\<lparr>key_id = ''1'', key_mid = [], key_hash = ''e2966abbc67c050bda67d03a3cee5250''\<rparr>,
               \<lparr>key_id = ''2'', key_mid = [], key_hash = ''1589ccf0cc110cf6e41f132e1f77b4bb''\<rparr>]"
    unfolding process_candidate_keys[OF b0] k1 kb
    by (simp add: key_step_def key_lookup_def key_upsert_def truthy_def clean_id_def)
  have n2: "map eid (new_emails ?sb) = [''1'', ''2'']"
    unfolding process_candidate_new_ids[of ?sa] k1 kb n1
    by (simp add: key_lookup_def truthy_def candidate_fields)
  have ids: "map row_id (emails (db ?sb)) = [''1'', ''2'']"
    unfolding row_ids_keys k2 by simp
  have run: "first_run (empty_db [''me@example.com'']) [?a, ?b] None
             = (db ?sb, logged ?sb, Inr (new_emails ?sb))"
    by (simp add: first_run_def fetch_healthy_all Let_def)
  show ?thesis
    unfolding run using ne ids n2 by (simp add: candidate_fields)
qed

lemma key_step_ids_sequence:
  assumes ks: "\<forall>k\<in>set ks. sequence_number (key_id k)" and c: "sequence_number (key_id c)"
  shows "\<forall>k\<in>set (key_step ks c). sequence_number (key_id k)"
proof
  fix k assume k: "k \<in> set (key_step ks c)"
  obtain i where st: "key_step ks c = key_upsert (c\<lparr>key_id := i\<rparr>) ks" and i: "sequence_number i"
    using key_step_sequence[OF ks c] by metis
  from k have "k = c\<lparr>key_id := i\<rparr> \<or> k \<in> set ks" unfolding st using key_upsert_cases by blast
  then show "sequence_number (key_id k)" using i ks by auto
qed

text \<open>
  Claim C3, amended. The content hash is the MD5 digest of subject, sender, timestamp and
  the sequence number (the id of the candidate). For two candidates with the same subject,
  sender and timestamp, no message identifier and an account that exists, in turns where
  nothing raises: if their sequence numbers are equal, their hashes are equal, and (the ids
  of the table being sequence numbers) the turn of the second one after the first finds a
  row by the hash and rewrites the \<open>is_read\<close>, category, \<open>email_hash\<close> and
  \<open>message_id\<close> columns of that row, adding no row and reporting nothing new. If their
  sequence numbers differ, they are hashed from different strings, so their hashes are
  equal only if MD5 collides; whenever the hashes differ (and the table holds neither of
  the two hashes nor of the two ids), the two candidates do not collapse: each is inserted
  as a row of its own with all its fields, and both are reported as new.
\<close>

theorem same_sequence_number_collapses:
  assumes "subject c1 = subject c2" and "sender c1 = sender c2" and "date c1 = date c2"
    and "message_id c1 = None" and "message_id c2 = None"
    and "account_email c1 \<in> set (accounts (db st))"
    and "account_email c2 \<in> set (accounts (db st))"
  shows "(eid c1 = eid c2 \<longrightarrow> generate_email_hash c1 = generate_email_hash c2)
       \<and> (eid c1 \<noteq> eid c2 \<longrightarrow> unique_fields c1 \<noteq> unique_fields c2)
       \<and> (eid c1 = eid c2 \<and> sequence_number (eid c1)
            \<and> list_all (\<lambda>r. sequence_number (row_id r)) (emails (db st)) \<longrightarrow>
          (\<exists>j\<in>set (map row_id (emails (db (process_candidate st (no_faults, Some c1))))).
             emails (db (process_candidate
                (process_candidate st (no_faults, Some c1)) (no_faults, Some c2)))
             = map (\<lambda>old. if row_id old = j
                           then on_duplicate_key_update (row_of_email (categorized c2)) old
                           else old)
                 (emails (db (process_candidate st (no_faults, Some c1)))))
          \<and> new_emails (process_candidate
                (process_candidate st (no_faults, Some c1)) (no_faults, Some c2))
            = new_emails (process_candidate st (no_faults, Some c1)))
       \<and> (generate_email_hash c1 \<noteq> generate_email_hash c2
            \<and> sequence_number (eid c1) \<and> sequence_number (eid c2)
            \<and> list_all (\<lambda>r. row_email_hash r \<noteq> generate_email_hash c1
                           \<and> row_email_hash r \<noteq> generate_email_hash c2
                           \<and> row_id r \<noteq> eid c1 \<and> row_id r \<noteq> eid c2) (emails (db st)) \<longrightarrow>
          eid c1 \<noteq> eid c2
          \<and> emails (db (process_candidate
                (process_candidate st (no_faults, Some c1)) (no_faults, Some c2)))
            = emails (db st) @ [row_of_email (categorized c1), row_of_email (categorized c2)]
          \<and> new_emails (process_candidate
                (process_candidate st (no_faults, Some c1)) (no_faults, Some c2))
            = new_emails st @ [categorized c1, categorized c2])"
proof -
  let ?st = "process_candidate st (no_faults, Some c1)"
  let ?st2 = "process_candidate ?st (no_faults, Some c2)"
  let ?ks = "map row_keys (emails (db st))"
  have h: "eid c1 = eid c2 \<longrightarrow> generate_email_hash c1 = generate_email_hash c2"
    using assms(1-3) by (simp add: generate_email_hash_def unique_fields_def)
  have u: "eid c1 \<noteq> eid c2 \<longrightarrow> unique_fields c1 \<noteq> unique_fields c2"
    using assms(1-3) by (simp add: unique_fields_def)
  have acc: "accounts (db ?st) = accounts (db st)"
    using assms(6) by (rule process_candidate_rows)
  with assms(7) have a2: "account_email c2 \<in> set (accounts (db ?st))" by simp
  have p: "eid c1 = eid c2 \<and> sequence_number (eid c1)
            \<and> list_all (\<lambda>r. sequence_number (row_id r)) (emails (db st)) \<longrightarrow>
          (\<exists>j\<in>set (map row_id (emails (db ?st))).
             emails (db ?st2)
             = map (\<lambda>old. if row_id old = j
                           then on_duplicate_key_update (row_of_email (categorized c2)) old
                           else old)
                 (emails (db ?st)))
          \<and> new_emails ?st2 = new_emails ?st"
  proof (intro impI, elim conjE)
    assume e: "eid c1 = eid c2" and s: "sequence_number (eid c1)"
      and rows: "list_all (\<lambda>r. sequence_number (row_id r)) (emails (db st))"
    from e h assms(4,5) have same: "candidate_keys c2 = candidate_keys c1"
      by (simp add: candidate_keys_def)
    have ks: "\<forall>k\<in>set ?ks. sequence_number (key_id k)"
      using rows by (auto simp: list_all_iff row_keys_def)
    have c: "sequence_number (key_id (candidate_keys c1))"
      using s by (simp add: candidate_keys_def)
    have k1: "map row_keys (emails (db ?st)) = key_step ?ks (candidate_keys c1)"
      using assms(6) by (rule process_candidate_keys)
    have t: "truthy (existing_id (db ?st) c2)"
      unfolding existing_id_keys k1 same using ks c by (rule key_step_twice)
    then obtain j where j: "existing_id (db ?st) c2 = Some j" and ne: "j \<noteq> []"
      by (cases "existing_id (db ?st) c2") (auto simp: truthy_def)
    from j have mem: "j \<in> set (map row_id (emails (db ?st)))" by (rule existing_id_in_ids)
    then have "j \<in> set (map key_id (map row_keys (emails (db ?st))))"
      unfolding row_ids_keys .
    then obtain k where k: "k \<in> set (map row_keys (emails (db ?st)))" "key_id k = j"
      by auto
    from key_step_ids_sequence[OF ks c] k have "sequence_number j" unfolding k1 by blast
    then have cl: "clean_id j = j" by (rule sequence_number_clean)
    from mem cl have mem': "clean_id j \<in> set (map row_id (emails (db ?st)))" by simp
    have m: "emails (db ?st2)
             = map (\<lambda>old. if row_id old = j
                           then on_duplicate_key_update (row_of_email (categorized c2)) old
                           else old)
                 (emails (db ?st))"
      using process_candidate_found(2)[OF j ne a2 mem'] unfolding cl .
    have n: "new_emails ?st2 = new_emails ?st" using j ne by (rule process_candidate_found)
    from mem m n show "(\<exists>j\<in>set (map row_id (emails (db ?st))).
             emails (db ?st2)
             = map (\<lambda>old. if row_id old = j
                           then on_duplicate_key_update (row_of_email (categorized c2)) old
                           else old)
                 (emails (db ?st)))
          \<and> new_emails ?st2 = new_emails ?st"
      by blast
  qed
  have q: "generate_email_hash c1 \<noteq> generate_email_hash c2
            \<and> sequence_number (eid c1) \<and> sequence_number (eid c2)
            \<and> list_all (\<lambda>r. row_email_hash r \<noteq> generate_email_hash c1
                           \<and> row_email_hash r \<noteq> generate_email_hash c2
                           \<and> row_id r \<noteq> eid c1 \<and> row_id r \<noteq> eid c2) (emails (db st)) \<longrightarrow>
          eid c1 \<noteq> eid c2
          \<and> emails (db ?st2)
            = emails (db st) @ [row_of_email (categorized c1), row_of_email (categorized c2)]
          \<and> new_emails ?st2 = new_emails st @ [categorized c1, categorized c2]"
  proof (intro impI, elim conjE)
    assume d: "generate_email_hash c1 \<noteq> generate_email_hash c2"
      and s1: "sequence_number (eid c1)" and s2: "sequence_number (eid c2)"
      and rows: "list_all (\<lambda>r. row_email_hash r \<noteq> generate_email_hash c1
                           \<and> row_email_hash r \<noteq> generate_email_hash c2
                           \<and> row_id r \<noteq> eid c1 \<and> row_id r \<noteq> eid c2) (emails (db st))"
    from d h have ids: "eid c1 \<noteq> eid c2" by blast
    from s1 have cl1: "clean_id (eid c1) = eid c1" by (rule sequence_number_clean)
    from s2 have cl2: "clean_id (eid c2) = eid c2" by (rule sequence_number_clean)
    from rows have r1: "\<forall>r\<in>set (emails (db st)). row_email_hash r \<noteq> generate_email_hash c1"
      and r2: "\<forall>r\<in>set (emails (db st)). row_email_hash r \<noteq> generate_email_hash c2"
      and i1: "eid c1 \<notin> set (map row_id (emails (db st)))"
      and i2: "eid c2 \<notin> set (map row_id (emails (db st)))"
      by (auto simp: list_all_iff)
    have x1: "existing_id (db st) c1 = None"
      using r1 by (simp add: existing_id_no_message_id[OF assms(4)] find_None_iff)
    have m1: "emails (db ?st) = emails (db st) @ [row_of_email (categorized c1)]"
      using process_candidate_not_found(2)[OF x1 assms(6)] i1 by (simp add: cl1)
    have n1: "new_emails ?st = new_emails st @ [categorized c1]"
      using x1 assms(6) by (rule process_candidate_not_found)
    have x2: "existing_id (db ?st) c2 = None"
      using r2 d by (auto simp: existing_id_no_message_id[OF assms(5)] m1 find_None_iff
            row_of_categorized)
    have i2': "clean_id (eid c2) \<notin> set (map row_id (emails (db ?st)))"
      using i2 ids by (simp add: m1 cl1 cl2 row_of_categorized)
    have m2: "emails (db ?st2)
              = emails (db st) @ [row_of_email (categorized c1), row_of_email (categorized c2)]"
      using process_candidate_not_found(2)[OF x2 a2] i2' by (simp add: m1)
    have n2: "new_emails ?st2 = new_emails st @ [categorized c1, categorized c2]"
      using process_candidate_not_found(1)[OF x2 a2] by (simp add: n1)
    from ids m2 n2 show "eid c1 \<noteq> eid c2
          \<and> emails (db ?st2)
            = emails (db st) @ [row_of_email (categorized c1), row_of_email (categorized c2)]
          \<and> new_emails ?st2 = new_emails st @ [categorized c1, categorized c2]"
      by (intro conjI)
  qed
  from h u p q show ?thesis by (intro conjI)
qed

text \<open>
  The theorem at the table whose row 7 holds another message. Message 1 of the mailbox
  fetched once more (the same sequence number, another body) has the same hash and adds
  nothing. Messages 1 and 2, alike in subject, sender and timestamp, have different hashes
  and become the rows 1 and 2, both reported as new.
\<close>

theorem same_sequence_number_collapses_witness:
  "subject (candidate ''1'' ''Hello'' None) = subject ((candidate ''1'' ''Hello'' None)\<lparr>body := ''Again''\<rparr>)
   \<and> sender (candidate ''1'' ''Hello'' None) = sender ((candidate ''1'' ''Hello'' None)\<lparr>body := ''Again''\<rparr>)
   \<and> date (candidate ''1'' ''Hello'' None) = date ((candidate ''1'' ''Hello'' None)\<lparr>body := ''Again''\<rparr>)
   \<and> message_id (candidate ''1'' ''Hello'' None) = None
   \<and> message_id ((candidate ''1'' ''Hello'' None)\<lparr>body := ''Again''\<rparr>) = None
   \<and> account_email (candidate ''1'' ''Hello'' None)
       \<in> set (accounts (db \<lparr>db = one_row_db, new_emails = [], logged = []\<rparr>))
   \<and> account_email ((candidate ''1'' ''Hello'' None)\<lparr>body := ''Again''\<rparr>)
       \<in> set (accounts (db \<lparr>db = one_row_db, new_emails = [], logged = []\<rparr>))
   \<and> eid (candidate ''1'' ''Hello'' None) = eid ((candidate ''1'' ''Hello'' None)\<lparr>body := ''Again''\<rparr>)
   \<and> sequence_number (eid (candidate ''1'' ''Hello'' None))
   \<and> list_all (\<lambda>r. sequence_number (row_id r)) (emails (db \<lparr>db = one_row_db, new_emails = [], logged = []\<rparr>))
   \<and> generate_email_hash (candidate ''1'' ''Hello'' None)
       = generate_email_hash ((candidate ''1'' ''Hello'' None)\<lparr>body := ''Again''\<rparr>)
   \<and> length (emails (db (process_candidate
         (process_candidate \<lparr>db = one_row_db, new_emails = [], logged = []\<rparr>
            (no_faults, Some (candidate ''1'' ''Hello'' None)))
         (no_faults, Some ((candidate ''1'' ''Hello'' None)\<lparr>body := ''Again''\<rparr>)))))
       = length (emails (db (process_candidate
           \<lparr>db = one_row_db, new_emails = [], logged = []\<rparr>
           (no_faults, Some (candidate ''1'' ''Hello'' None)))))
   \<and> new_emails (process_candidate
         (process_candidate \<lparr>db = one_row_db, new_emails = [], logged = []\<rparr>
            (no_faults, Some (candidate ''1'' ''Hello'' None)))
         (no_faults, Some ((candidate ''1'' ''Hello'' None)\<lparr>body := ''Again''\<rparr>)))
       = new_emails (process_candidate \<lparr>db = one_row_db, new_emails = [], logged = []\<rparr>
           (no_faults, Some (candidate ''1'' ''Hello'' None)))
   \<and> subject (candidate ''1'' ''Hello'' None) = subject (candidate ''2'' ''Hello'' None)
   \<and> sender (candidate ''1'' ''Hello'' None) = sender (candidate ''2'' ''Hello'' None)
   \<and> date (candidate ''1'' ''Hello'' None) = date (candidate ''2'' ''Hello'' None)
   \<and> message_id (candidate ''2'' ''Hello'' None) = None
   \<and> account_email (candidate ''2'' ''Hello'' None)
       \<in> set (accounts (db \<lparr>db = one_row_db, new_emails = [], logged = []\<rparr>))
   \<and> generate_email_hash (candidate ''1'' ''Hello'' None)
       \<noteq> generate_email_hash (candidate ''2'' ''Hello'' None)
   \<and> sequence_number (eid (candidate ''2'' ''Hello'' None))
   \<and> list_all (\<lambda>r. row_email_hash r \<noteq> generate_email_hash (candidate ''1'' ''Hello'' None)
                  \<and> row_email_hash r \<noteq> generate_email_hash (candidate ''2'' ''Hello'' None)
                  \<and> row_id r \<noteq> eid (candidate ''1'' ''Hello'' None)
                  \<and> row_id r \<noteq> eid (candidate ''2'' ''Hello'' None))
       (emails (db \<lparr>db = one_row_db, new_emails = [], logged = []\<rparr>))
   \<and> map row_id (emails (db (process_candidate
         (process_candidate \<lparr>db = one_row_db, new_emails = [], logged = []\<rparr>
            (no_faults, Some (candidate ''1'' ''Hello'' None)))
         (no_faults, Some (candidate ''2'' ''Hello'' None)))))
       = [''7'', ''1'', ''2'']
   \<and> map row_email_hash (emails (db (process_candidate
         (process_candidate \<lparr>db = one_row_db, new_emails = [], logged = []\<rparr>
            (no_faults, Some (candidate ''1'' ''Hello'' None)))
         (no_faults, Some (candidate ''2'' ''Hello'' None)))))
       = [''h'', ''e2966abbc67c050bda67d03a3cee5250'', ''1589ccf0cc110cf6e41f132e1f77b4bb'']
   \<and> map eid (new_emails (process_candidate
         (process_candidate \<lparr>db = one_row_db, new_emails = [], logged = []\<rparr>
            (no_faults, Some (candidate ''1'' ''Hello'' None)))
         (no_faults, Some (candidate ''2'' ''Hello'' None))))
       = [''1'', ''2'']"
proof -
  let ?a = "candidate ''1'' ''Hello'' None"
  let ?b = "(candidate ''1'' ''Hello'' None)\<lparr>body := ''Again''\<rparr>"
  let ?c = "candidate ''2'' ''Hello'' None"
  let ?s = "\<lparr>db = one_row_db, new_emails = [], logged = []\<rparr>"
  let ?sa = "process_candidate ?s (no_faults, Some ?a)"
  have f: "subject ?a = subject ?b" "sender ?a = sender ?b" "date ?a = date ?b"
    "message_id ?a = None" "message_id ?b = None"
    "account_email ?a \<in> set (accounts (db ?s))" "account_email ?b \<in> set (accounts (db ?s))"
    by (simp_all add: candidate_fields one_row_db_def)
  have f': "subject ?a = subject ?c" "sender ?a = sender ?c" "date ?a = date ?c"
    "message_id ?a = None" "message_id ?c = None"
    "account_email ?a \<in> set (accounts (db ?s))" "account_email ?c \<in> set (accounts (db ?s))"
    by (simp_all add: candidate_fields one_row_db_def)
  have g: "eid ?a = eid ?b" "sequence_number (eid ?a)"
    "list_all (\<lambda>r. sequence_number (row_id r)) (emails (db ?s))"
    by (simp_all add: candidate_fields sequence_number_def one_row_db_def stored_row_def)
  have ne: "generate_email_hash ?a \<noteq> generate_email_hash ?c"
    by (simp add: hash_hello_1 hash_hello_2)
  have g': "sequence_number (eid ?c)"
    "list_all (\<lambda>r. row_email_hash r \<noteq> generate_email_hash ?a
                  \<and> row_email_hash r \<noteq> generate_email_hash ?c
                  \<and> row_id r \<noteq> eid ?a \<and> row_id r \<noteq> eid ?c) (emails (db ?s))"
    by (simp_all add: candidate_fields sequence_number_def one_row_db_def stored_row_def
          hash_hello_1 hash_hello_2)
  from same_sequence_number_collapses[OF f] g
  have c1: "generate_email_hash ?a = generate_email_hash ?b"
    and c2: "\<exists>j\<in>set (map row_id (emails (db ?sa))).
               emails (db (process_candidate ?sa (no_faults, Some ?b)))
               = map (\<lambda>old. if row_id old = j
                             then on_duplicate_key_update (row_of_email (categorized ?b)) old
                             else old)
                   (emails (db ?sa))"
    and c3: "new_emails (process_candidate ?sa (no_faults, Some ?b)) = new_emails ?sa"
    by blast+
  from c2 have c4: "length (emails (db (process_candidate ?sa (no_faults, Some ?b))))
                    = length (emails (db ?sa))"
    by auto
  from same_sequence_number_collapses[OF f'] ne g(2) g'
  have d1: "emails (db (process_candidate ?sa (no_faults, Some ?c)))
            = emails (db ?s) @ [row_of_email (categorized ?a), row_of_email (categorized ?c)]"
    and d2: "new_emails (process_candidate ?sa (no_faults, Some ?c))
             = new_emails ?s @ [categorized ?a, categorized ?c]"
    by blast+
  have cl: "clean_id ''1'' = ''1''" "clean_id ''2'' = ''2''" by (simp_all add: clean_id_def)
  have i: "map row_id (emails (db (process_candidate ?sa (no_faults, Some ?c))))
           = [''7'', ''1'', ''2'']"
    unfolding d1
    by (simp add: one_row_db_def stored_row_def row_of_categorized candidate_fields cl)
  have hs: "map row_email_hash (emails (db (process_candidate ?sa (no_faults, Some ?c))))
            = [''h'', ''e2966abbc67c050bda67d03a3cee5250'', ''1589ccf0cc110cf6e41f132e1f77b4bb'']"
    unfolding d1
    by (simp add: one_row_db_def stored_row_def row_of_categorized hash_hello_1 hash_hello_2)
  have n: "map eid (new_emails (process_candidate ?sa (no_faults, Some ?c))) = [''1'', ''2'']"
    unfolding d2 by (simp add: categorized_fields candidate_fields)
  from f g c1 c4 c3 f'(1,2,3,5,7) ne g' i hs n show ?thesis by (intro conjI)
qed


section \<open>Running the pipeline twice: the claims\<close>

lemma mailbox_keys_candidates:
  assumes "distinct (map eid cs)" and "\<forall>c\<in>set cs. sequence_number (eid c)"
    and "distinct (map generate_email_hash cs)"
  shows "mailbox_keys (map candidate_keys cs)"
proof -
  have a: "map key_id (map candidate_keys cs) = map eid cs"
    by (simp add: candidate_keys_def comp_def)
  have b: "\<forall>k\<in>set (map candidate_keys cs). sequence_number (key_id k)"
    using assms(2) by (auto simp: candidate_keys_def)
  have c: "\<forall>k\<in>set (map candidate_keys cs). \<forall>l\<in>set (map candidate_keys cs).
             key_hash k = key_hash l \<longrightarrow> k = l"
  proof (intro ballI impI)
    fix k l
    assume k: "k \<in> set (map candidate_keys cs)" and l: "l \<in> set (map candidate_keys cs)"
      and e: "key_hash k = key_hash l"
    from k obtain x where x: "x \<in> set cs" "k = candidate_keys x" by auto
    from l obtain y where y: "y \<in> set cs" "l = candidate_keys y" by auto
    from e x y have "generate_email_hash x = generate_email_hash y"
      by (simp add: candidate_keys_def)
    with assms(3) x y have "x = y" by (auto simp: distinct_map inj_on_def)
    with x y show "k = l" by simp
  qed
  from assms(1) a have d: "distinct (map key_id (map candidate_keys cs))" by (simp only:)
  from d b c show ?thesis unfolding mailbox_keys_def by (intro conjI)
qed

text \<open>
  Claim C4 says that a second run of \<open>fetch_emails_from_account\<close> over the same
  unchanged mailbox inserts nothing: every candidate is found by the lookup and saved as
  an update, the save being an insert-or-update keyed by message identity, so that the
  number of stored messages is unchanged. The save is keyed by the row id, which is the
  sequence number of the message in its mailbox or the id the lookup returned, and a save
  under a sequence number overwrites the \<open>message_id\<close> and \<open>email_hash\<close> of whatever
  row has that id. The table holds the message \<open><A@x>\<close> under the id 2; in the mailbox
  that message now has the sequence number 1, and a later message \<open><B@x>\<close> has the
  sequence number 2. In the first run \<open><A@x>\<close> is found and rewrites row 2, then
  \<open><B@x>\<close> is not found and is saved under its own id 2, which rewrites the same row.
  In the second run over the same mailbox \<open><A@x>\<close> is no longer found: it is inserted
  as a new row under the id 1 and returned as new, and the table grows from one row to two.
\<close>

theorem renumbered_mailbox_second_run_inserts:
  "map row_id (emails (fst (first_run renumbered_store renumbered_mailbox None))) = [''2'']
   \<and> map row_id (emails (fst (second_run renumbered_store renumbered_mailbox None)))
       = [''2'', ''1'']
   \<and> map_sum id (map eid) (snd (snd (second_run renumbered_store renumbered_mailbox None)))
       = Inr [''1'']"
proof -
  let ?a = "candidate ''1'' ''Hello'' (Some ''<A@x>'')"
  let ?b = "candidate ''2'' ''World'' (Some ''<B@x>'')"
  let ?s = "\<lparr>db = renumbered_store, new_emails = [], logged = []\<rparr>"
  let ?sa = "process_candidate ?s (no_faults, Some ?a)"
  let ?sb = "process_candidate ?sa (no_faults, Some ?b)"
  let ?t = "\<lparr>db = db ?sb, new_emails = [], logged = []\<rparr>"
  let ?ta = "process_candidate ?t (no_faults, Some ?a)"
  let ?tb = "process_candidate ?ta (no_faults, Some ?b)"
  define ha where "ha = generate_email_hash ?a"
  define hb where "hb = generate_email_hash ?b"
  have ka: "candidate_keys ?a = \<lparr>key_id = ''1'', key_mid = ''<A@x>'', key_hash = ha\<rparr>"
    by (simp add: candidate_keys_candidate or_empty_def ha_def)
  have kb: "candidate_keys ?b = \<lparr>key_id = ''2'', key_mid = ''<B@x>'', key_hash = hb\<rparr>"
    by (simp add: candidate_keys_candidate or_empty_def hb_def)
  have k0: "map row_keys (emails (db ?s))
            = [\<lparr>key_id = ''2'', key_mid = ''<A@x>'', key_hash = ''h''\<rparr>]"
    by (simp add: renumbered_store_def stored_row_def row_keys_def)
  have acc0: "accounts (db ?s) = [''me@example.com'']" by (simp add: renumbered_store_def)
  have a0: "account_email ?a \<in> set (accounts (db ?s))"
    unfolding acc0 by (simp add: candidate_fields)
  have acc1: "accounts (db ?sa) = [''me@example.com'']"
    using process_candidate_rows(2)[OF a0] acc0 by simp
  have b1: "account_email ?b \<in> set (accounts (db ?sa))"
    unfolding acc1 by (simp add: candidate_fields)
  have acc2: "accounts (db ?t) = [''me@example.com'']"
    using process_candidate_rows(2)[OF b1] acc1 by simp
  have a2: "account_email ?a \<in> set (accounts (db ?t))"
    unfolding acc2 by (simp add: candidate_fields)
  have acc3: "accounts (db ?ta) = [''me@example.com'']"
    using process_candidate_rows(2)[OF a2] acc2 by simp
  have b3: "account_email ?b \<in> set (accounts (db ?ta))"
    unfolding acc3 by (simp add: candidate_fields)
  have k1: "map row_keys (emails (db ?sa))
            = [\<lparr>key_id = ''2'', key_mid = ''<A@x>'', key_hash = ha\<rparr>]"
    unfolding process_candidate_keys[OF a0] k0 ka
    by (simp add: key_step_def key_lookup_def key_upsert_def truthy_def or_empty_def
          clean_id_def)
  have k2: "map row_keys (emails (db ?sb))
            = [\<lparr>key_id = ''2'', key_mid = ''<B@x>'', key_hash = hb\<rparr>]"
    unfolding process_candidate_keys[OF b1] k1 kb
    by (simp add: key_step_def key_lookup_def key_upsert_def truthy_def or_empty_def
          clean_id_def)
  have k2': "map row_keys (emails (db ?t))
            = [\<lparr>key_id = ''2'', key_mid = ''<B@x>'', key_hash = hb\<rparr>]"
    using k2 by simp
  have k3: "map row_keys (emails (db ?ta))
            = [\<lparr>key_id = ''2'', key_mid = ''<B@x>'', key_hash = hb\<rparr>,
               \<lparr>key_id = ''1'', key_mid = ''<A@x>'', key_hash = ha\<rparr>]"
    unfolding process_candidate_keys[OF a2] k2' ka
    by (simp add: key_step_def key_lookup_def key_upsert_def truthy_def or_empty_def
          clean_id_def)
  have n3: "map eid (new_emails ?ta) = [''1'']"
    unfolding process_candidate_new_ids[of ?t] k2' ka
    by (simp add: key_lookup_def truthy_def candidate_fields)
  have k4: "map row_keys (emails (db ?tb))
            = [\<lparr>key_id = ''2'', key_mid = ''<B@x>'', key_hash = hb\<rparr>,
               \<lparr>key_id = ''1'', key_mid = ''<A@x>'', key_hash = ha\<rparr>]"
    unfolding process_candidate_keys[OF b3] k3 kb
    by (simp add: key_step_def key_lookup_def key_upsert_def truthy_def or_empty_def
          clean_id_def)
  have n4: "map eid (new_emails ?tb) = [''1'']"
    unfolding process_candidate_new_ids[of ?ta] k3 kb n3
    by (simp add: key_lookup_def truthy_def candidate_fields)
  have i2: "map row_id (emails (db ?sb)) = [''2'']" unfolding row_ids_keys k2 by simp
  have i4: "map row_id (emails (db ?tb)) = [''2'', ''1'']" unfolding row_ids_keys k4 by simp
  have r1: "first_run renumbered_store renumbered_mailbox None
            = (db ?sb, logged ?sb, Inr (new_emails ?sb))"
    by (simp add: first_run_def fetch_healthy_all renumbered_mailbox_def Let_def)
  have r2: "second_run renumbered_store renumbered_mailbox None
            = (db ?tb, logged ?tb, Inr (new_emails ?tb))"
    unfolding second_run_def r1
    by (simp add: fetch_healthy_all renumbered_mailbox_def Let_def)
  show ?thesis unfolding r1 r2 using i2 i4 n4 by simp
qed

text \<open>
  The same defect from an empty table, with two accounts whose mailboxes each hold one
  message, both under the sequence number 1: the lookup has no account filter and the save
  is keyed by the sequence number alone. A pass over both accounts leaves one row, which
  has the account and subject of the first message and the \<open>message_id\<close> of the second;
  the next run over the first mailbox does not find its message and returns it as new
  again, and so does every later pass.
\<close>

theorem two_accounts_share_one_row:
  "map row_id (emails (two_account_pass (empty_db [''a@example.com'', ''b@example.com'']))) = [''1'']
   \<and> map row_account_email
         (emails (two_account_pass (empty_db [''a@example.com'', ''b@example.com'']))) = [''a@example.com'']
   \<and> map row_subject
         (emails (two_account_pass (empty_db [''a@example.com'', ''b@example.com'']))) = [''Hello'']
   \<and> map row_message_id
         (emails (two_account_pass (empty_db [''a@example.com'', ''b@example.com'']))) = [''<B@x>'']
   \<and> map_sum id (map eid)
         (snd (snd (first_run (two_account_pass (empty_db [''a@example.com'', ''b@example.com'']))
                      mailbox_a None)))
       = Inr [''1'']"
proof -
  let ?a = "(candidate ''1'' ''Hello'' (Some ''<A@x>''))\<lparr>account_email := ''a@example.com''\<rparr>"
  let ?b = "(candidate ''1'' ''World'' (Some ''<B@x>''))\<lparr>account_email := ''b@example.com''\<rparr>"
  let ?d = "empty_db [''a@example.com'', ''b@example.com'']"
  let ?s = "\<lparr>db = ?d, new_emails = [], logged = []\<rparr>"
  let ?sa = "process_candidate ?s (no_faults, Some ?a)"
  let ?t = "\<lparr>db = db ?sa, new_emails = [], logged = []\<rparr>"
  let ?tb = "process_candidate ?t (no_faults, Some ?b)"
  let ?u = "\<lparr>db = db ?tb, new_emails = [], logged = []\<rparr>"
  let ?ua = "process_candidate ?u (no_faults, Some ?a)"
  let ?ra = "row_of_email (categorized ?a)"
  let ?rb = "row_of_email (categorized ?b)"
  have fa: "eid ?a = ''1''" "message_id ?a = Some ''<A@x>''" "account_email ?a = ''a@example.com''"
    "subject ?a = ''Hello''"
    by (simp_all add: candidate_def)
  have fb: "eid ?b = ''1''" "message_id ?b = Some ''<B@x>''" "account_email ?b = ''b@example.com''"
    by (simp_all add: candidate_def)
  have cl: "clean_id ''1'' = ''1''" by (simp add: clean_id_def)
  have ra: "row_id ?ra = ''1''" "row_message_id ?ra = ''<A@x>''"
    "row_account_email ?ra = ''a@example.com''" "row_subject ?ra = ''Hello''"
    by (simp_all add: row_of_categorized fa cl or_empty_def)
  have rb: "row_message_id ?rb = ''<B@x>''"
    by (simp add: row_of_categorized fb or_empty_def)
  have a0: "account_email ?a \<in> set (accounts (db ?s))" by (simp add: fa empty_db_def)
  have x0: "existing_id (db ?s) ?a = None"
    by (simp add: existing_id_message_id[OF fa(2)] empty_db_def)
  have m1: "emails (db ?sa) = [?ra]"
    using process_candidate_not_found(2)[OF x0 a0] by (simp add: empty_db_def)
  have acc1: "accounts (db ?sa) = [''a@example.com'', ''b@example.com'']"
    using process_candidate_rows(2)[OF a0] by (simp add: empty_db_def)
  have b1: "account_email ?b \<in> set (accounts (db ?t))" using acc1 by (simp add: fb)
  have x1: "existing_id (db ?t) ?b = None"
    by (simp add: existing_id_message_id[OF fb(2)] m1 ra)
  have m2: "emails (db ?tb) = [on_duplicate_key_update ?rb ?ra]"
    using process_candidate_not_found(2)[OF x1 b1] by (simp add: m1 ra fb cl)
  have acc2: "accounts (db ?tb) = [''a@example.com'', ''b@example.com'']"
    using process_candidate_rows(2)[OF b1] acc1 by simp
  have a2: "account_email ?a \<in> set (accounts (db ?u))" using acc2 by (simp add: fa)
  have x2: "existing_id (db ?u) ?a = None"
    by (simp add: existing_id_message_id[OF fa(2)] m2 update_keeps rb)
  have n3: "new_emails ?ua = [categorized ?a]"
    using process_candidate_not_found(1)[OF x2 a2] by simp
  have p: "two_account_pass ?d = db ?tb"
    by (simp add: two_account_pass_def first_run_def fetch_healthy_all mailbox_a_def
          mailbox_b_def Let_def)
  have r: "first_run (db ?tb) mailbox_a None = (db ?ua, logged ?ua, Inr (new_emails ?ua))"
    by (simp add: first_run_def fetch_healthy_all mailbox_a_def Let_def)
  have i: "map row_id (emails (db ?tb)) = [''1'']" unfolding m2 by (simp add: update_keeps ra)
  have c: "map row_account_email (emails (db ?tb)) = [''a@example.com'']"
    unfolding m2 by (simp add: update_keeps ra)
  have s: "map row_subject (emails (db ?tb)) = [''Hello'']"
    unfolding m2 by (simp add: update_keeps ra)
  have g: "map row_message_id (emails (db ?tb)) = [''<B@x>'']"
    unfolding m2 by (simp add: update_keeps rb)
  have n: "map_sum id (map eid) (snd (snd (first_run (db ?tb) mailbox_a None))) = Inr [''1'']"
    unfolding r n3 by (simp add: categorized_fields fa)
  from i c s g n show ?thesis unfolding p by (intro conjI)
qed

text \<open>
  What does hold of two runs: when the second run starts from exactly the table the first
  one left, the first run started from an empty table, the messages of the mailbox have
  distinct sequence numbers and distinct content hashes, their account exists, nothing
  raises and both runs decode the same candidates (with the same limit), then the second
  run reports no new email, every one of its turns finds the candidate and logs an update,
  and the table holds the same ids after it as before it, each of them once.
\<close>

theorem second_run_after_first_inserts_nothing:
  assumes "distinct (map eid cs)"
    and "list_all (\<lambda>c. sequence_number (eid c)) cs"
    and "distinct (map generate_email_hash cs)"
    and "list_all (\<lambda>c. account_email c \<in> set accts) cs"
  shows "snd (snd (second_run (empty_db accts) cs limit)) = Inr []
       \<and> fst (snd (second_run (empty_db accts) cs limit))
           = replicate (length (apply_limit limit cs)) ''Email updated''
       \<and> map row_id (emails (fst (second_run (empty_db accts) cs limit)))
           = map row_id (emails (fst (first_run (empty_db accts) cs limit)))
       \<and> length (emails (fst (second_run (empty_db accts) cs limit)))
           = length (emails (fst (first_run (empty_db accts) cs limit)))
       \<and> distinct (map row_id (emails (fst (second_run (empty_db accts) cs limit))))"
proof -
  let ?ds = "apply_limit limit cs"
  let ?s = "\<lparr>db = empty_db accts, new_emails = [], logged = []\<rparr>"
  let ?s1 = "foldl process_candidate ?s (map (\<lambda>c. (no_faults, Some c)) ?ds)"
  let ?t = "\<lparr>db = db ?s1, new_emails = [], logged = []\<rparr>"
  let ?t1 = "foldl process_candidate ?t (map (\<lambda>c. (no_faults, Some c)) ?ds)"
  obtain n where n: "?ds = drop n cs" using apply_limit_drop by blast
  have sub: "set ?ds \<subseteq> set cs" unfolding n by (rule set_drop_subset)
  have d: "distinct (map eid ?ds)"
    unfolding n using assms(1) by (simp add: drop_map[symmetric] distinct_drop)
  have h: "distinct (map generate_email_hash ?ds)"
    unfolding n using assms(3) by (simp add: drop_map[symmetric] distinct_drop)
  have s: "\<forall>c\<in>set ?ds. sequence_number (eid c)"
    using assms(2) sub by (auto simp: list_all_iff)
  have a: "\<forall>c\<in>set ?ds. account_email c \<in> set accts"
    using assms(4) sub by (auto simp: list_all_iff)
  have mb: "mailbox_keys (map candidate_keys ?ds)" using d s h by (rule mailbox_keys_candidates)
  have r1: "first_run (empty_db accts) cs limit = (db ?s1, logged ?s1, Inr (new_emails ?s1))"
    by (simp add: first_run_def fetch_healthy Let_def)
  have r2: "second_run (empty_db accts) cs limit = (db ?t1, logged ?t1, Inr (new_emails ?t1))"
    unfolding second_run_def r1 by (simp add: fetch_healthy Let_def)
  have a0: "\<forall>c\<in>set ?ds. account_email c \<in> set (accounts (db ?s))"
    using a by (simp add: empty_db_def)
  have k1: "map row_keys (emails (db ?s1)) = foldl key_step [] (map candidate_keys ?ds)"
    using pass_keys[OF a0] by (simp add: empty_db_def)
  have acc1: "accounts (db ?s1) = accts"
    using pass_keys[OF a0] by (simp add: empty_db_def)
  have inv1: "key_inv (map candidate_keys ?ds) (map row_keys (emails (db ?t)))"
    using key_first_pass(1)[OF mb] k1 by simp
  have cov1: "\<forall>c\<in>set ?ds. covered (map row_keys (emails (db ?t))) (candidate_keys c)"
    using key_first_pass(2)[OF mb] k1 by simp
  have a1: "\<forall>c\<in>set ?ds. account_email c \<in> set (accounts (db ?t))"
    using a acc1 by simp
  have p: "new_emails ?t1 = new_emails ?t
         \<and> logged ?t1 = logged ?t @ replicate (length ?ds) ''Email updated''
         \<and> map row_id (emails (db ?t1)) = map row_id (emails (db ?t))"
    using mb subset_refl inv1 cov1 a1 by (rule pass_covered)
  have ids: "map row_id (emails (db ?t1)) = map row_id (emails (db ?s1))" using p by simp
  have len: "length (emails (db ?t1)) = length (emails (db ?s1))"
    using ids by (metis length_map)
  have dist: "distinct (map row_id (emails (db ?s1)))"
    using inv1 by (simp add: key_inv_def row_ids_keys)
  show ?thesis unfolding r1 r2 using p ids len dist by simp
qed

theorem second_run_after_first_inserts_nothing_witness:
  "distinct (map eid [candidate ''1'' ''Hello'' (Some ''<A@x>''), candidate ''2'' ''Hello'' None])
   \<and> list_all (\<lambda>c. sequence_number (eid c))
       [candidate ''1'' ''Hello'' (Some ''<A@x>''), candidate ''2'' ''Hello'' None]
   \<and> distinct (map generate_email_hash
       [candidate ''1'' ''Hello'' (Some ''<A@x>''), candidate ''2'' ''Hello'' None])
   \<and> list_all (\<lambda>c. account_email c \<in> set [''me@example.com''])
       [candidate ''1'' ''Hello'' (Some ''<A@x>''), candidate ''2'' ''Hello'' None]
   \<and> snd (snd (second_run (empty_db [''me@example.com''])
       [candidate ''1'' ''Hello'' (Some ''<A@x>''), candidate ''2'' ''Hello'' None] None)) = Inr []
   \<and> fst (snd (second_run (empty_db [''me@example.com''])
       [candidate ''1'' ''Hello'' (Some ''<A@x>''), candidate ''2'' ''Hello'' None] None))
       = [''Email updated'', ''Email updated'']
   \<and> map row_id (emails (fst (second_run (empty_db [''me@example.com''])
       [candidate ''1'' ''Hello'' (Some ''<A@x>''), candidate ''2'' ''Hello'' None] None)))
       = map row_id (emails (fst (first_run (empty_db [''me@example.com''])
       [candidate ''1'' ''Hello'' (Some ''<A@x>''), candidate ''2'' ''Hello'' None] None)))"
proof -
  let ?cs = "[candidate ''1'' ''Hello'' (Some ''<A@x>''), candidate ''2'' ''Hello'' None]"
  have h1: "distinct (map eid ?cs)" by (simp add: candidate_fields)
  have h2: "list_all (\<lambda>c. sequence_number (eid c)) ?cs"
    by (simp add: candidate_fields sequence_number_def)
  have h3: "distinct (map generate_email_hash ?cs)" by (simp add: hash_hello_1 hash_hello_2)
  have h4: "list_all (\<lambda>c. account_email c \<in> set [''me@example.com'']) ?cs"
    by (simp add: candidate_fields)
  have l: "replicate (length (apply_limit None ?cs)) ''Email updated''
           = [''Email updated'', ''Email updated'']"
    by (simp add: apply_limit_def)
  from second_run_after_first_inserts_nothing[OF h1 h2 h3 h4, of None]
  have c: "snd (snd (second_run (empty_db [''me@example.com'']) ?cs None)) = Inr []"
    "fst (snd (second_run (empty_db [''me@example.com'']) ?cs None))
     = [''Email updated'', ''Email updated'']"
    "map row_id (emails (fst (second_run (empty_db [''me@example.com'']) ?cs None)))
     = map row_id (emails (fst (first_run (empty_db [''me@example.com'']) ?cs None)))"
    unfolding l by blast+
  from h1 h2 h3 h4 c show ?thesis by (intro conjI)
qed

section \<open>The dedup lookup: the claims\<close>





section \<open>Failures while a candidate is processed: the claims\<close>






section \<open>The orchestrating passes: the claim\<close>

lemma fetch_result_isl:
  "isl (snd (snd (fetch_emails_from_account d s limit))) = isl s"
  by (auto simp: fetch_emails_from_account_def Let_def split: sum.splits exn.splits prod.splits)

lemma exn_str_other: "exn_str (OtherError s) = s"
  by (simp add: exn_str_def)

lemma fetch_one_account_fails:
  assumes "account_fails a"
  shows "attempted (fetch_one_account limit ps a) = attempted ps @ [acct a]"
    and "failed_accounts (results (fetch_one_account limit ps a)) = failed_accounts (results ps) + 1"
    and "successful_accounts (results (fetch_one_account limit ps a)) = successful_accounts (results ps)"
    and "errors (results (fetch_one_account limit ps a)) = errors (results ps) @ [account_error_message a]"
    and "total_accounts (results (fetch_one_account limit ps a)) = total_accounts (results ps)"
  using assms
  by (auto simp: fetch_one_account_def account_fails_def account_error_message_def Let_def
        fetch_emails_from_account_def exn_str_other
      split: sum.splits exn.splits prod.splits)

lemma fetch_one_account_succeeds:
  assumes "\<not> account_fails a"
  shows "attempted (fetch_one_account limit ps a) = attempted ps @ [acct a]"
    and "failed_accounts (results (fetch_one_account limit ps a)) = failed_accounts (results ps)"
    and "successful_accounts (results (fetch_one_account limit ps a)) = successful_accounts (results ps) + 1"
    and "errors (results (fetch_one_account limit ps a)) = errors (results ps)"
    and "total_accounts (results (fetch_one_account limit ps a)) = total_accounts (results ps)"
  using assms
  by (auto simp: fetch_one_account_def account_fails_def Let_def
        fetch_emails_from_account_def
      split: sum.splits exn.splits prod.splits)

lemma pass_fold:
  "attempted (foldl (fetch_one_account limit) ps accts) = attempted ps @ map acct accts
   \<and> failed_accounts (results (foldl (fetch_one_account limit) ps accts))
       = failed_accounts (results ps) + length (filter account_fails accts)
   \<and> successful_accounts (results (foldl (fetch_one_account limit) ps accts))
       = successful_accounts (results ps) + length (filter (\<lambda>a. \<not> account_fails a) accts)
   \<and> errors (results (foldl (fetch_one_account limit) ps accts))
       = errors (results ps) @ map account_error_message (filter account_fails accts)
   \<and> total_accounts (results (foldl (fetch_one_account limit) ps accts))
       = total_accounts (results ps)"
proof (induction accts arbitrary: ps)
  case Nil
  then show ?case by simp
next
  case (Cons a accts)
  show ?case
  proof (cases "account_fails a")
    case True
    then show ?thesis
      using Cons.IH [of "fetch_one_account limit ps a"]
      by (simp add: fetch_one_account_fails)
  next
    case False
    then show ?thesis
      using Cons.IH [of "fetch_one_account limit ps a"]
      by (simp add: fetch_one_account_succeeds)
  qed
qed

lemma background_one_attempted:
  "bg_attempted (background_one_account bs a) = bg_attempted bs @ [acct a]"
  by (simp add: background_one_account_def split: prod.splits sum.splits)

lemma background_fold:
  "bg_attempted (foldl background_one_account bs accts) = bg_attempted bs @ map acct accts"
  by (induction accts arbitrary: bs) (simp_all add: background_one_attempted)

lemma fetch_fails_db:
  "isl s \<Longrightarrow> fst (fetch_emails_from_account d s limit) = d"
  by (auto simp: fetch_emails_from_account_def split: sum.splits exn.splits)

lemma background_one_db:
  "bg_db (background_one_account bs a)
   = fst (fetch_emails_from_account (bg_db bs) (acct_session a) None)"
  by (simp add: background_one_account_def split: prod.splits sum.splits)

lemma background_one_logged:
  "bg_logged (background_one_account bs a)
   = bg_logged bs @ (if isl (acct_session a) then [background_error_message a] else [])"
  by (auto simp: background_one_account_def background_error_message_def
        fetch_emails_from_account_def exn_str_other Let_def
      split: prod.splits sum.splits exn.splits)

lemma background_fold_db:
  "bg_db (foldl background_one_account bs accts)
   = foldl (\<lambda>d a. fst (fetch_emails_from_account d (acct_session a) None)) (bg_db bs) accts"
  by (induction accts arbitrary: bs) (simp_all add: background_one_db)

lemma background_fold_logged:
  "bg_logged (foldl background_one_account bs accts)
   = bg_logged bs @ map background_error_message (filter (\<lambda>a. isl (acct_session a)) accts)"
  by (induction accts arbitrary: bs) (simp_all add: background_one_logged)

lemma fold_skips_failing:
  "foldl (\<lambda>d a. fst (fetch_emails_from_account d (acct_session a) None)) d accts
   = foldl (\<lambda>d a. fst (fetch_emails_from_account d (acct_session a) None)) d
       (filter (\<lambda>a. \<not> isl (acct_session a)) accts)"
  by (induction accts arbitrary: d) (simp_all add: fetch_fails_db)

text \<open>
  Claim C9: when fetching fails for an account (its connection test fails or its IMAP
  session raises), the manual endpoint and the background pass still go on with every
  remaining account. The manual endpoint enters the turn of every account, and its
  aggregate result counts each failing account once in \<open>failed_accounts\<close>, records its
  error message, and counts every other account in \<open>successful_accounts\<close>. The
  background pass runs \<open>fetch_emails_from_account\<close> for every account in turn, each on
  the database the accounts before it left: its database is the one a pass over the
  accounts that do not fail leaves, and it logs one error line for each failing account.
\<close>

theorem one_failure_does_not_stop_the_pass:
  assumes "accts \<noteq> []"
  shows "\<exists>ps. fetch_emails_route d limit accts = Completed ps
           \<and> attempted ps = map acct accts
           \<and> failed_accounts (results ps) = length (filter account_fails accts)
           \<and> successful_accounts (results ps) = length (filter (\<lambda>a. \<not> account_fails a) accts)
           \<and> errors (results ps) = map account_error_message (filter account_fails accts)
           \<and> total_accounts (results ps) = length accts
           \<and> bg_attempted (background_fetch_emails d accts) = map acct accts
           \<and> bg_db (background_fetch_emails d accts)
             = foldl (\<lambda>d a. fst (fetch_emails_from_account d (acct_session a) None)) d accts
           \<and> bg_db (background_fetch_emails d accts)
             = bg_db (background_fetch_emails d (filter (\<lambda>a. \<not> isl (acct_session a)) accts))
           \<and> bg_logged (background_fetch_emails d accts)
             = map background_error_message (filter (\<lambda>a. isl (acct_session a)) accts)"
proof -
  have b1: "bg_db (background_fetch_emails d accts)
            = foldl (\<lambda>d a. fst (fetch_emails_from_account d (acct_session a) None)) d accts"
    by (simp add: background_fetch_emails_def background_fold_db)
  have b2: "bg_db (background_fetch_emails d accts)
            = bg_db (background_fetch_emails d (filter (\<lambda>a. \<not> isl (acct_session a)) accts))"
    unfolding background_fetch_emails_def background_fold_db
    using fold_skips_failing[of d accts] by simp
  have b3: "bg_logged (background_fetch_emails d accts)
            = map background_error_message (filter (\<lambda>a. isl (acct_session a)) accts)"
    by (simp add: background_fetch_emails_def background_fold_logged)
  show ?thesis
    using assms pass_fold [of limit _ accts] background_fold [of _ accts] b1 b2 b3
    by (simp add: fetch_emails_route_def background_fetch_emails_def)
qed

text \<open>
  The theorem at three accounts of which the second has an unreachable host. The manual
  endpoint reports one failed and two successful accounts. The background pass over three
  mailboxes of which the second is unreachable stores the message of the first and the
  message of the third account and logs the failure of the second.
\<close>

theorem one_failure_does_not_stop_the_pass_witness:
  "three_accounts \<noteq> []
   \<and> (\<exists>ps. fetch_emails_route (empty_db []) None three_accounts = Completed ps
         \<and> attempted ps = [''a@example.com'', ''b@example.com'', ''c@example.com'']
         \<and> failed_accounts (results ps) = 1
         \<and> successful_accounts (results ps) = 2
         \<and> errors (results ps) = [''Connection failed for account: b@example.com''])
   \<and> bg_attempted (background_fetch_emails (empty_db []) three_accounts)
       = [''a@example.com'', ''b@example.com'', ''c@example.com'']
   \<and> three_mailboxes \<noteq> []
   \<and> map row_id (emails (bg_db (background_fetch_emails
         (empty_db [''a@example.com'', ''b@example.com'', ''c@example.com'']) three_mailboxes)))
       = [''1'', ''2'']
   \<and> map row_account_email (emails (bg_db (background_fetch_emails
         (empty_db [''a@example.com'', ''b@example.com'', ''c@example.com'']) three_mailboxes)))
       = [''a@example.com'', ''c@example.com'']
   \<and> map row_subject (emails (bg_db (background_fetch_emails
         (empty_db [''a@example.com'', ''b@example.com'', ''c@example.com'']) three_mailboxes)))
       = [''Hello'', ''World'']
   \<and> bg_logged (background_fetch_emails
         (empty_db [''a@example.com'', ''b@example.com'', ''c@example.com'']) three_mailboxes)
       = [''Error fetching emails for b@example.com: Failed to connect to email account: unreachable host'']"
proof -
  let ?d = "empty_db [''a@example.com'', ''b@example.com'', ''c@example.com'']"
  let ?a = "(candidate ''1'' ''Hello'' (Some ''<a1@x>''))\<lparr>account_email := ''a@example.com''\<rparr>"
  let ?c = "(candidate ''2'' ''World'' (Some ''<c2@x>''))\<lparr>account_email := ''c@example.com''\<rparr>"
  let ?s = "\<lparr>db = ?d, new_emails = [], logged = []\<rparr>"
  let ?sa = "process_candidate ?s (no_faults, Some ?a)"
  let ?t = "\<lparr>db = db ?sa, new_emails = [], logged = []\<rparr>"
  let ?tc = "process_candidate ?t (no_faults, Some ?c)"
  let ?ra = "row_of_email (categorized ?a)"
  let ?rc = "row_of_email (categorized ?c)"
  have ne: "three_accounts \<noteq> []" by (simp add: three_accounts_def)
  have ne': "three_mailboxes \<noteq> []" by (simp add: three_mailboxes_def)
  have a: "map acct three_accounts = [''a@example.com'', ''b@example.com'', ''c@example.com'']"
    by (simp add: three_accounts_def)
  have f: "length (filter account_fails three_accounts) = 1"
    by (simp add: three_accounts_def account_fails_def)
  have s: "length (filter (\<lambda>a. \<not> account_fails a) three_accounts) = 2"
    by (simp add: three_accounts_def account_fails_def)
  have e: "map account_error_message (filter account_fails three_accounts)
           = [''Connection failed for account: b@example.com'']"
    by (simp add: three_accounts_def account_fails_def account_error_message_def)
  from one_failure_does_not_stop_the_pass [OF ne, of "empty_db []" None]
  have m: "(\<exists>ps. fetch_emails_route (empty_db []) None three_accounts = Completed ps
         \<and> attempted ps = [''a@example.com'', ''b@example.com'', ''c@example.com'']
         \<and> failed_accounts (results ps) = 1
         \<and> successful_accounts (results ps) = 2
         \<and> errors (results ps) = [''Connection failed for account: b@example.com''])
     \<and> bg_attempted (background_fetch_emails (empty_db []) three_accounts)
         = [''a@example.com'', ''b@example.com'', ''c@example.com'']"
    using a f s e by auto
  have fa: "eid ?a = ''1''" "message_id ?a = Some ''<a1@x>''"
    "account_email ?a = ''a@example.com''" "subject ?a = ''Hello''"
    by (simp_all add: candidate_def)
  have fc: "eid ?c = ''2''" "message_id ?c = Some ''<c2@x>''"
    "account_email ?c = ''c@example.com''" "subject ?c = ''World''"
    by (simp_all add: candidate_def)
  have cl: "clean_id ''1'' = ''1''" "clean_id ''2'' = ''2''" by (simp_all add: clean_id_def)
  have ra: "row_id ?ra = ''1''" "row_message_id ?ra = ''<a1@x>''"
    "row_account_email ?ra = ''a@example.com''" "row_subject ?ra = ''Hello''"
    by (simp_all add: row_of_categorized fa cl or_empty_def)
  have rc: "row_id ?rc = ''2''" "row_account_email ?rc = ''c@example.com''"
    "row_subject ?rc = ''World''"
    by (simp_all add: row_of_categorized fc cl)
  have a0: "account_email ?a \<in> set (accounts (db ?s))" by (simp add: fa empty_db_def)
  have x0: "existing_id (db ?s) ?a = None"
    by (simp add: existing_id_message_id[OF fa(2)] empty_db_def)
  have m1: "emails (db ?sa) = [?ra]"
    using process_candidate_not_found(2)[OF x0 a0] by (simp add: empty_db_def)
  have acc1: "accounts (db ?sa) = [''a@example.com'', ''b@example.com'', ''c@example.com'']"
    using process_candidate_rows(2)[OF a0] by (simp add: empty_db_def)
  have c1: "account_email ?c \<in> set (accounts (db ?t))" using acc1 by (simp add: fc)
  have x1: "existing_id (db ?t) ?c = None"
    by (simp add: existing_id_message_id[OF fc(2)] m1 ra)
  have m2: "emails (db ?tc) = [?ra, ?rc]"
    using process_candidate_not_found(2)[OF x1 c1] by (simp add: m1 ra fc cl)
  have run: "foldl (\<lambda>d a. fst (fetch_emails_from_account d (acct_session a) None)) ?d
               three_mailboxes = db ?tc"
    by (simp add: three_mailboxes_def fetch_healthy_all fetch_fails_db Let_def)
  from one_failure_does_not_stop_the_pass [OF ne', of ?d None]
  have bd: "bg_db (background_fetch_emails ?d three_mailboxes) = db ?tc"
    and bl: "bg_logged (background_fetch_emails ?d three_mailboxes)
             = map background_error_message (filter (\<lambda>a. isl (acct_session a)) three_mailboxes)"
    unfolding run by blast+
  have i: "map row_id (emails (bg_db (background_fetch_emails ?d three_mailboxes)))
           = [''1'', ''2'']"
    unfolding bd m2 by (simp add: ra rc)
  have o: "map row_account_email (emails (bg_db (background_fetch_emails ?d three_mailboxes)))
           = [''a@example.com'', ''c@example.com'']"
    unfolding bd m2 by (simp add: ra rc)
  have j: "map row_subject (emails (bg_db (background_fetch_emails ?d three_mailboxes)))
           = [''Hello'', ''World'']"
    unfolding bd m2 by (simp add: ra rc)
  have g: "bg_logged (background_fetch_emails ?d three_mailboxes)
           = [''Error fetching emails for b@example.com: Failed to connect to email account: unreachable host'']"
    unfolding bl
    by (simp add: three_mailboxes_def healthy_session_def background_error_message_def)
  from ne m ne' i o j g show ?thesis by (intro conjI) blast+
qed

end
